theory Spec2Isabelle
  imports Complex_Main "HOL-Library.Sublist" "HOL-Library.AList"
begin

section \<open>Python strings\<close>

text \<open>
  A Python \<open>str\<close> is modelled as a \<open>string\<close> whose characters are the code points
  0..255 (Latin-1). On that range \<open>str.isspace\<close> holds for U+0009..U+000D,
  U+001C..U+001F, U+0020, U+0085 and U+00A0, and \<open>str.lower\<close> shifts A..Z and
  U+00C0..U+00DE (except the multiplication sign U+00D7) by 32.
\<close>

definition is_space :: "char \<Rightarrow> bool" where
  "is_space c = (c \<in> set [CHR 0x09, CHR 0x0A, CHR 0x0B, CHR 0x0C, CHR 0x0D,
                          CHR 0x1C, CHR 0x1D, CHR 0x1E, CHR 0x1F, CHR 0x20,
                          CHR 0x85, CHR 0xA0])"

definition lower_char :: "char \<Rightarrow> char" where
  "lower_char c =
     (let n = (of_char c :: nat)
      in if (65 \<le> n \<and> n \<le> 90) \<or> (192 \<le> n \<and> n \<le> 222 \<and> n \<noteq> 215)
         then char_of (n + 32) else c)"

definition lower :: "string \<Rightarrow> string" where
  "lower s = map lower_char s"

text \<open>\<open>s.strip()\<close>: leading and trailing whitespace removed.\<close>

definition lstrip :: "string \<Rightarrow> string" where
  "lstrip s = dropWhile is_space s"

definition rstrip :: "string \<Rightarrow> string" where
  "rstrip s = rev (dropWhile is_space (rev s))"

definition strip :: "string \<Rightarrow> string" where
  "strip s = rstrip (lstrip s)"

text \<open>
  \<open>s.split()\<close> without a separator: the maximal runs of non-whitespace characters,
  left to right. \<open>cur\<close> is the run being read.
\<close>

fun split_ws_from :: "string \<Rightarrow> string \<Rightarrow> string list" where
  "split_ws_from cur [] = (if cur = [] then [] else [cur])"
| "split_ws_from cur (c # cs) =
     (if is_space c
      then (if cur = [] then split_ws_from [] cs else cur # split_ws_from [] cs)
      else split_ws_from (cur @ [c]) cs)"

definition split_ws :: "string \<Rightarrow> string list" where
  "split_ws s = split_ws_from [] s"

text \<open>\<open>sep.join(xs)\<close>.\<close>

fun join :: "string \<Rightarrow> string list \<Rightarrow> string" where
  "join sep [] = []"
| "join sep [x] = x"
| "join sep (x # y # ys) = x @ sep @ join sep (y # ys)"

text \<open>\<open>a in b\<close> on strings: \<open>a\<close> occurs in \<open>b\<close> as a contiguous block.\<close>

fun starts_with :: "string \<Rightarrow> string \<Rightarrow> bool" where
  "starts_with [] s = True"
| "starts_with (a # as) [] = False"
| "starts_with (a # as) (c # cs) = (a = c \<and> starts_with as cs)"

fun str_in :: "string \<Rightarrow> string \<Rightarrow> bool" where
  "str_in a [] = (a = [])"
| "str_in a (c # cs) = (starts_with a (c # cs) \<or> str_in a cs)"

section \<open>maskers/image\_masker.py\<close>

text \<open>
  The OCR data of pytesseract is a dictionary of parallel lists. The keys the code reads
  are always present; the lists are indexed by position, and reading past the end of one
  raises \<open>IndexError\<close>.
\<close>

datatype exn = IndexError | ValueError | EngineFailure string | NotInitialized string

record ocr_data =
  ocr_text :: "string list"
  ocr_left :: "int list"
  ocr_top :: "int list"
  ocr_width :: "int list"
  ocr_height :: "int list"

text \<open>An entry of \<open>positions\<close>: the dictionary with keys x, y, width and height.\<close>

record box =
  box_x :: int
  box_y :: int
  box_width :: int
  box_height :: int

definition item :: "'a list \<Rightarrow> nat \<Rightarrow> exn + 'a" where
  "item xs i = (if i < length xs then Inr (xs ! i) else Inl IndexError)"

definition normalize_target :: "string \<Rightarrow> string" where
  "normalize_target text_to_mask = lower (join [] (split_ws text_to_mask))"

text \<open>
  The body of the loop of \<open>find_text_positions\<close> for index \<open>i\<close>: the positions list after
  the iteration, or the exception raised by it. The loop runs over \<open>range(n_boxes)\<close>, so
  \<open>ocr_text\<close> is always read in range.
\<close>

definition find_step :: "ocr_data \<Rightarrow> string \<Rightarrow> box list \<Rightarrow> nat \<Rightarrow> exn + box list" where
  "find_step od normalized_target positions i =
     (let word = strip (ocr_text od ! i)
      in if word \<noteq> []
         then (let normalized_word = lower word
               in if str_in normalized_word normalized_target
                     \<or> str_in normalized_target normalized_word
                  then (case item (ocr_left od) i of
                          Inl e \<Rightarrow> Inl e
                        | Inr x \<Rightarrow>
                       (case item (ocr_top od) i of
                          Inl e \<Rightarrow> Inl e
                        | Inr y \<Rightarrow>
                       (case item (ocr_width od) i of
                          Inl e \<Rightarrow> Inl e
                        | Inr w \<Rightarrow>
                       (case item (ocr_height od) i of
                          Inl e \<Rightarrow> Inl e
                        | Inr h \<Rightarrow>
                            Inr (positions @
                              [\<lparr>box_x = x, box_y = y, box_width = w, box_height = h\<rparr>])))))
                  else Inr positions)
         else Inr positions)"

fun find_loop :: "ocr_data \<Rightarrow> string \<Rightarrow> box list \<Rightarrow> nat list \<Rightarrow> exn + box list" where
  "find_loop od nt positions [] = Inr positions"
| "find_loop od nt positions (i # rest) =
     (case find_step od nt positions i of
        Inl e \<Rightarrow> Inl e
      | Inr positions' \<Rightarrow> find_loop od nt positions' rest)"

definition find_text_positions :: "ocr_data \<Rightarrow> string \<Rightarrow> exn + box list" where
  "find_text_positions od text_to_mask =
     (let n_boxes = length (ocr_text od);
          normalized_target = normalize_target text_to_mask
      in find_loop od normalized_target [] [0..<n_boxes])"

text \<open>
  The OCR words of the data model: a text and its bounding box, in reading order, and the
  pytesseract dictionary that carries them.
\<close>

record ocr_word =
  word_text :: string
  word_box :: box

definition ocr_of_words :: "ocr_word list \<Rightarrow> ocr_data" where
  "ocr_of_words ws =
     \<lparr>ocr_text = map word_text ws,
      ocr_left = map (\<lambda>w. box_x (word_box w)) ws,
      ocr_top = map (\<lambda>w. box_y (word_box w)) ws,
      ocr_width = map (\<lambda>w. box_width (word_box w)) ws,
      ocr_height = map (\<lambda>w. box_height (word_box w)) ws\<rparr>"

text \<open>
  The position set as the specification words it: every OCR word whose stripped,
  lowercased text is contained in the normalized target, or contains it.
\<close>

definition claimed_positions :: "ocr_word list \<Rightarrow> string \<Rightarrow> box list" where
  "claimed_positions ws text_to_mask =
     map word_box
       (filter (\<lambda>w. str_in (lower (strip (word_text w))) (normalize_target text_to_mask)
                   \<or> str_in (normalize_target text_to_mask) (lower (strip (word_text w))))
          ws)"

text \<open>The test the loop applies to one OCR word.\<close>

definition word_matches :: "string \<Rightarrow> ocr_word \<Rightarrow> bool" where
  "word_matches nt w =
     (strip (word_text w) \<noteq> [] \<and>
      (str_in (lower (strip (word_text w))) nt \<or> str_in nt (lower (strip (word_text w)))))"

section \<open>The detection engine and the analyze\_text adapters\<close>

text \<open>
  The Presidio engines are external. The analyzer engine is a parameter: its \<open>analyze\<close>
  method takes the text, the language, the entity filter and the score threshold (each
  of the last two may be \<open>None\<close>), and returns its results or raises. A result carries an entity type, two offsets and a score.
\<close>

record recognizer_result =
  rr_entity_type :: string
  rr_start :: int
  rr_end :: int
  rr_score :: real

type_synonym analyzer_engine =
  "string \<Rightarrow> string \<Rightarrow> string list option \<Rightarrow> real option
     \<Rightarrow> exn + recognizer_result list"

text \<open>The dictionary built for each result, with the keys of the source.\<close>

record finding =
  f_entity_type :: string
  f_text :: string
  f_start :: int
  f_end :: int
  f_score :: real

text \<open>
  \<open>s[a:b]\<close>: a negative offset counts from the end, and both offsets are clamped to the
  string.
\<close>

definition slice_bound :: "nat \<Rightarrow> int \<Rightarrow> int" where
  "slice_bound n i = (if i < 0 then max (i + int n) 0 else min i (int n))"

definition py_slice :: "string \<Rightarrow> int \<Rightarrow> int \<Rightarrow> string" where
  "py_slice s a b =
     (let lo = slice_bound (length s) a; hi = slice_bound (length s) b
      in take (nat (hi - lo)) (drop (nat lo) s))"

definition to_finding :: "string \<Rightarrow> recognizer_result \<Rightarrow> finding" where
  "to_finding txt r =
     \<lparr>f_entity_type = rr_entity_type r,
      f_text = py_slice txt (rr_start r) (rr_end r),
      f_start = rr_start r,
      f_end = rr_end r,
      f_score = rr_score r\<rparr>"

text \<open>
  Each \<open>analyze_text\<close> returns its result (the findings, or the exception that escapes)
  together with the list of texts on which it invoked the engine.
\<close>

definition convert_results ::
  "string \<Rightarrow> exn + recognizer_result list \<Rightarrow> exn + finding list" where
  "convert_results txt res =
     (case res of Inl e \<Rightarrow> Inl e | Inr results \<Rightarrow> Inr (map (to_finding txt) results))"

text \<open>
  \<open>CSVAnalyzer.analyze_text\<close>. Its callers pass \<open>str(value)\<close>, so \<open>pd.isna(text)\<close> is
  false and \<open>str(text)\<close> is the text.
\<close>

definition csv_analyze_text ::
  "analyzer_engine \<Rightarrow> string \<Rightarrow> string \<Rightarrow> real \<Rightarrow> string list option
     \<Rightarrow> (exn + finding list) \<times> string list" where
  "csv_analyze_text analyzer txt language threshold entities =
     (if txt = [] \<or> strip txt = [] then (Inr [], [])
      else (convert_results txt (analyzer txt language entities (Some threshold)), [txt]))"

text \<open>\<open>OptimizedPDFAnalyzer.analyze_text\<close>.\<close>

definition pdf_analyze_text ::
  "analyzer_engine \<Rightarrow> string \<Rightarrow> string \<Rightarrow> real \<Rightarrow> string list option
     \<Rightarrow> (exn + finding list) \<times> string list" where
  "pdf_analyze_text analyzer txt language threshold entities =
     (convert_results txt (analyzer txt language entities (Some threshold)), [txt])"

text \<open>\<open>OptimizedImageAnalyzer.analyze_text\<close>.\<close>

definition image_analyze_text ::
  "analyzer_engine \<Rightarrow> string \<Rightarrow> string \<Rightarrow> real \<Rightarrow> string list option
     \<Rightarrow> (exn + finding list) \<times> string list" where
  "image_analyze_text analyzer txt language threshold entities =
     (if txt = [] \<or> strip txt = [] then (Inr [], [])
      else (convert_results txt (analyzer txt language entities (Some threshold)), [txt]))"

section \<open>maskers/pdf\_masker.py\<close>

text \<open>\<open>s.replace(old, new)\<close> for a pattern \<open>old\<close> of one character.\<close>

definition replace_char :: "char \<Rightarrow> string \<Rightarrow> string \<Rightarrow> string" where
  "replace_char old new s = concat (map (\<lambda>c. if c = old then new else [c]) s)"

definition escape_html_entities :: "string \<Rightarrow> string" where
  "escape_html_entities txt =
     replace_char (CHR ''>'') ''&gt;'' (replace_char (CHR ''<'') ''&lt;'' txt)"

text \<open>
  \<open>s.split('\n')\<close> and \<open>s.split('\n\n')\<close>: the pieces between the occurrences of the
  separator, found left to right without overlap. \<open>cur\<close> is the piece being read.
\<close>

fun split_nl_from :: "string \<Rightarrow> string \<Rightarrow> string list" where
  "split_nl_from cur [] = [cur]"
| "split_nl_from cur (c # cs) =
     (if c = CHR 0x0A then cur # split_nl_from [] cs else split_nl_from (cur @ [c]) cs)"

definition split_nl :: "string \<Rightarrow> string list" where
  "split_nl s = split_nl_from [] s"

fun split_nlnl_from :: "string \<Rightarrow> string \<Rightarrow> string list" where
  "split_nlnl_from cur [] = [cur]"
| "split_nlnl_from cur [c] = [cur @ [c]]"
| "split_nlnl_from cur (c # d # cs) =
     (if c = CHR 0x0A \<and> d = CHR 0x0A then cur # split_nlnl_from [] cs
      else split_nlnl_from (cur @ [c]) (d # cs))"

definition split_nlnl :: "string \<Rightarrow> string list" where
  "split_nlnl s = split_nlnl_from [] s"

text \<open>
  The story handed to reportlab: a paragraph built from markup, or the fixed spacer
  \<open>Spacer(1, 0.1*inch)\<close>. \<open>Paragraph(markup, style)\<close> parses its markup when it is
  constructed and raises \<open>ValueError\<close> on markup its parser rejects. The parser belongs to
  reportlab and is a parameter: \<open>parses\<close> tells which markup it accepts.
\<close>

datatype flowable = Paragraph string | Spacer

definition new_paragraph :: "(string \<Rightarrow> bool) \<Rightarrow> string \<Rightarrow> exn + flowable" where
  "new_paragraph parses markup =
     (if parses markup then Inr (Paragraph markup) else Inl ValueError)"

text \<open>\<open>' '.join(line.split())\<close>.\<close>

definition collapse_ws :: "string \<Rightarrow> string" where
  "collapse_ws line = join '' '' (split_ws line)"

text \<open>The markup \<open>cleaned_para\<close> that the loop body builds from a paragraph.\<close>

definition cleaned_para :: "string \<Rightarrow> string" where
  "cleaned_para para =
     (let lines = split_nl para;
          cleaned_lines = map collapse_ws (filter (\<lambda>line. strip line \<noteq> []) lines)
      in join ''<br/>'' cleaned_lines)"

text \<open>
  The loop over the paragraphs, with the story built so far: the story after the loop, or
  the exception with which a \<open>Paragraph\<close> constructor leaves it.
\<close>

fun story_loop :: "(string \<Rightarrow> bool) \<Rightarrow> flowable list \<Rightarrow> string list \<Rightarrow> exn + flowable list" where
  "story_loop parses story [] = Inr story"
| "story_loop parses story (para # rest) =
     (if strip para \<noteq> []
      then (case new_paragraph parses (cleaned_para para) of
              Inl e \<Rightarrow> Inl e
            | Inr p \<Rightarrow> story_loop parses (story @ [p, Spacer]) rest)
      else story_loop parses story rest)"

text \<open>
  \<open>create_masked_pdf\<close>: the story from which \<open>doc.build\<close> writes the document, or the
  exception raised before anything is written. The original PDF is not read.
\<close>

definition create_masked_pdf :: "(string \<Rightarrow> bool) \<Rightarrow> string \<Rightarrow> exn + flowable list" where
  "create_masked_pdf parses anonymized_text =
     (let escaped = escape_html_entities anonymized_text;
          paragraphs = split_nlnl escaped
      in story_loop parses [] paragraphs)"

text \<open>
  A stand-in for reportlab's parser on one point: it rejects markup in which the start of
  a character reference is followed by a space.
\<close>

definition rejects_bare_reference :: "string \<Rightarrow> bool" where
  "rejects_bare_reference markup = (\<not> str_in ''&# '' markup)"

abbreviation NL :: char where
  "NL \<equiv> CHR 0x0A"

section \<open>analyzers/csv\_analyzer.py\<close>

text \<open>
  A cell of a data frame is missing (NaN) or holds a value, modelled by its \<open>str()\<close>
  rendering. A frame has its column labels, in order, and its rows, each with one cell
  per column. \<open>read_csv\<close> labels the rows 0, 1, 2, ... (a RangeIndex) and makes the column
  labels unique, so a row label is the row's position and a column is addressed by its
  position in \<open>df_columns\<close>.
\<close>

datatype cell = Missing | Val string

type_synonym row = "cell list"

record dataframe =
  df_columns :: "string list"
  df_rows :: "row list"

definition rectangular :: "dataframe \<Rightarrow> bool" where
  "rectangular df = list_all (\<lambda>r. length r = length (df_columns df)) (df_rows df)"

text \<open>
  \<open>df.sample(n, random_state)\<close> belongs to pandas and is a parameter. It reads the
  process-wide random generator (of an abstract type \<open>'g\<close>) when \<open>random_state\<close> is
  \<open>None\<close>, and returns the positions of the rows it selects, in the order of the sample,
  or raises. With a seed given, pandas draws from a fresh generator made from the seed:
  the result does not depend on the process-wide one.
\<close>

type_synonym 'g sampler = "'g \<Rightarrow> dataframe \<Rightarrow> int \<Rightarrow> int option \<Rightarrow> exn + nat list"

definition seeded :: "'g sampler \<Rightarrow> bool" where
  "seeded smp = (\<forall>g g' df n seed. smp g df n (Some seed) = smp g' df n (Some seed))"

text \<open>
  The first statement of \<open>analyze_dataframe\<close>: the rows to analyze, each with its label,
  and the flag \<open>is_sampled\<close>. A \<open>sample_size\<close> of \<open>None\<close> or 0 is falsy.
\<close>

definition df_to_analyze ::
  "'g sampler \<Rightarrow> 'g \<Rightarrow> dataframe \<Rightarrow> int option \<Rightarrow> exn + ((nat \<times> row) list \<times> bool)" where
  "df_to_analyze smp g df sample_size =
     (case sample_size of
        None \<Rightarrow> Inr (enumerate 0 (df_rows df), False)
      | Some n \<Rightarrow>
          if n \<noteq> 0 \<and> int (length (df_rows df)) > n
          then (case smp g df n (Some 42) of
                  Inl e \<Rightarrow> Inl e
                | Inr positions \<Rightarrow> Inr (map (\<lambda>i. (i, df_rows df ! i)) positions, True))
          else Inr (enumerate 0 (df_rows df), False))"

record pii_item =
  row_index :: nat
  item_value :: string
  pii_findings :: "finding list"

record column_result =
  has_pii :: bool
  pii_count :: nat
  pii_types :: "(string \<times> nat) list"
  all_findings :: "pii_item list"

record analysis =
  total_columns :: nat
  total_rows :: nat
  analyzed_rows :: nat
  is_sampled :: bool
  column_results :: "(string \<times> column_result) list"

text \<open>The loop over the values of column \<open>j\<close> of the rows to analyze.\<close>

fun column_scan ::
  "analyzer_engine \<Rightarrow> real \<Rightarrow> string list option \<Rightarrow> nat \<Rightarrow> (nat \<times> row) list
     \<Rightarrow> pii_item list \<Rightarrow> exn + pii_item list" where
  "column_scan analyzer threshold entities j [] column_pii = Inr column_pii"
| "column_scan analyzer threshold entities j ((label, r) # rest) column_pii =
     (case r ! j of
        Missing \<Rightarrow> column_scan analyzer threshold entities j rest column_pii
      | Val v \<Rightarrow>
          (case fst (csv_analyze_text analyzer v ''en'' threshold entities) of
             Inl e \<Rightarrow> Inl e
           | Inr fs \<Rightarrow>
               if fs \<noteq> []
               then column_scan analyzer threshold entities j rest
                      (column_pii @ [\<lparr>row_index = label, item_value = v, pii_findings = fs\<rparr>])
               else column_scan analyzer threshold entities j rest column_pii))"

text \<open>\<open>pii_types[t] = pii_types.get(t, 0) + 1\<close> over the findings of the column.\<close>

definition count_type :: "finding \<Rightarrow> (string \<times> nat) list \<Rightarrow> (string \<times> nat) list" where
  "count_type f tys =
     AList.update (f_entity_type f)
       (case map_of tys (f_entity_type f) of None \<Rightarrow> 1 | Some k \<Rightarrow> k + 1) tys"

definition summarize_column :: "pii_item list \<Rightarrow> column_result" where
  "summarize_column column_pii =
     (if column_pii \<noteq> []
      then \<lparr>has_pii = True, pii_count = length column_pii,
            pii_types = fold (\<lambda>it tys. fold count_type (pii_findings it) tys) column_pii [],
            all_findings = column_pii\<rparr>
      else \<lparr>has_pii = False, pii_count = 0, pii_types = [], all_findings = []\<rparr>)"

fun columns_scan ::
  "analyzer_engine \<Rightarrow> real \<Rightarrow> string list option \<Rightarrow> string list \<Rightarrow> (nat \<times> row) list
     \<Rightarrow> nat list \<Rightarrow> (string \<times> column_result) list
     \<Rightarrow> exn + (string \<times> column_result) list" where
  "columns_scan analyzer threshold entities cols rs [] results = Inr results"
| "columns_scan analyzer threshold entities cols rs (j # js) results =
     (case column_scan analyzer threshold entities j rs [] of
        Inl e \<Rightarrow> Inl e
      | Inr column_pii \<Rightarrow>
          columns_scan analyzer threshold entities cols rs js
            (results @ [(cols ! j, summarize_column column_pii)]))"

definition analyze_dataframe ::
  "analyzer_engine \<Rightarrow> 'g sampler \<Rightarrow> 'g \<Rightarrow> dataframe \<Rightarrow> int option \<Rightarrow> real
     \<Rightarrow> string list option \<Rightarrow> exn + analysis" where
  "analyze_dataframe analyzer smp g df sample_size threshold entities =
     (case df_to_analyze smp g df sample_size of
        Inl e \<Rightarrow> Inl e
      | Inr (rs, sampled) \<Rightarrow>
          (case columns_scan analyzer threshold entities (df_columns df) rs
                  [0..<length (df_columns df)] [] of
             Inl e \<Rightarrow> Inl e
           | Inr results \<Rightarrow>
               Inr \<lparr>total_columns = length (df_columns df),
                    total_rows = length (df_rows df),
                    analyzed_rows = length rs,
                    is_sampled = sampled,
                    column_results = results\<rparr>))"

text \<open>
  The anonymizer engine is external too: its \<open>anonymize\<close> method takes the text and the
  recognizer results and returns the anonymized text, or raises.
\<close>

type_synonym anonymizer_engine = "string \<Rightarrow> recognizer_result list \<Rightarrow> exn + string"

definition to_recognizer_result :: "finding \<Rightarrow> recognizer_result" where
  "to_recognizer_result f =
     \<lparr>rr_entity_type = f_entity_type f, rr_start = f_start f, rr_end = f_end f,
      rr_score = f_score f\<rparr>"

text \<open>
  The body of the loops of \<open>anonymize_dataframe\<close> at row \<open>idx\<close> and column \<open>j\<close>: the
  rows of the copy after the iteration, or the exception raised.
\<close>

definition anonymize_at ::
  "analyzer_engine \<Rightarrow> anonymizer_engine \<Rightarrow> real \<Rightarrow> string list option \<Rightarrow> row list
     \<Rightarrow> nat \<Rightarrow> nat \<Rightarrow> exn + row list" where
  "anonymize_at analyzer anonymizer threshold entities rows idx j =
     (case rows ! idx ! j of
        Missing \<Rightarrow> Inr rows
      | Val value_str \<Rightarrow>
          (case fst (csv_analyze_text analyzer value_str ''en'' threshold entities) of
             Inl e \<Rightarrow> Inl e
           | Inr fs \<Rightarrow>
               if fs \<noteq> []
               then (case anonymizer value_str (map to_recognizer_result fs) of
                       Inl e \<Rightarrow> Inl e
                     | Inr anonymized \<Rightarrow>
                         Inr (rows[idx := (rows ! idx)[j := Val anonymized]]))
               else Inr rows))"

fun anonymize_index_loop ::
  "analyzer_engine \<Rightarrow> anonymizer_engine \<Rightarrow> real \<Rightarrow> string list option \<Rightarrow> nat
     \<Rightarrow> row list \<Rightarrow> nat list \<Rightarrow> exn + row list" where
  "anonymize_index_loop analyzer anonymizer threshold entities j rows [] = Inr rows"
| "anonymize_index_loop analyzer anonymizer threshold entities j rows (idx # rest) =
     (case anonymize_at analyzer anonymizer threshold entities rows idx j of
        Inl e \<Rightarrow> Inl e
      | Inr rows' \<Rightarrow>
          anonymize_index_loop analyzer anonymizer threshold entities j rows' rest)"

fun anonymize_column_loop ::
  "analyzer_engine \<Rightarrow> anonymizer_engine \<Rightarrow> real \<Rightarrow> string list option
     \<Rightarrow> row list \<Rightarrow> nat list \<Rightarrow> exn + row list" where
  "anonymize_column_loop analyzer anonymizer threshold entities rows [] = Inr rows"
| "anonymize_column_loop analyzer anonymizer threshold entities rows (j # js) =
     (case anonymize_index_loop analyzer anonymizer threshold entities j rows
             [0..<length rows] of
        Inl e \<Rightarrow> Inl e
      | Inr rows' \<Rightarrow> anonymize_column_loop analyzer anonymizer threshold entities rows' js)"

definition anonymize_dataframe ::
  "analyzer_engine \<Rightarrow> anonymizer_engine \<Rightarrow> dataframe \<Rightarrow> real \<Rightarrow> string list option
     \<Rightarrow> exn + dataframe" where
  "anonymize_dataframe analyzer anonymizer df threshold entities =
     (case anonymize_column_loop analyzer anonymizer threshold entities (df_rows df)
             [0..<length (df_columns df)] of
        Inl e \<Rightarrow> Inl e
      | Inr rows' \<Rightarrow> Inr (df\<lparr>df_rows := rows'\<rparr>))"

text \<open>
  \<open>analyze_csv\<close>, from the frame that \<open>read_csv\<close> returned. It returns the result
  dictionary together with the frame written to \<open>output_path\<close> by
  \<open>to_csv(output_path, index=False)\<close>, if one is written: the header of column labels
  and the rows, without the row labels.
\<close>

record summary =
  columns_with_pii :: nat
  total_pii_instances :: nat

record csv_result =
  file_path :: string
  analysis_of :: analysis
  summary_of :: summary
  anonymized_file :: "string option"
  anonymized_preview :: "dataframe option"

definition analyze_csv ::
  "analyzer_engine \<Rightarrow> anonymizer_engine \<Rightarrow> 'g sampler \<Rightarrow> 'g \<Rightarrow> string \<Rightarrow> dataframe
     \<Rightarrow> bool \<Rightarrow> string option \<Rightarrow> int option \<Rightarrow> real \<Rightarrow> string list option
     \<Rightarrow> exn + (csv_result \<times> dataframe option)" where
  "analyze_csv analyzer anonymizer smp g csv_path df anonymize output_path sample_size
       threshold entities =
     (case analyze_dataframe analyzer smp g df sample_size threshold entities of
        Inl e \<Rightarrow> Inl e
      | Inr analysis_results \<Rightarrow>
          (let result =
                 \<lparr>file_path = csv_path,
                  analysis_of = analysis_results,
                  summary_of =
                    \<lparr>columns_with_pii =
                       length (filter (\<lambda>(c, r). has_pii r) (column_results analysis_results)),
                     total_pii_instances =
                       sum_list (map (\<lambda>(c, r). pii_count r) (column_results analysis_results))\<rparr>,
                  anonymized_file = None,
                  anonymized_preview = None\<rparr>
           in if anonymize
              then (case anonymize_dataframe analyzer anonymizer df threshold entities of
                      Inl e \<Rightarrow> Inl e
                    | Inr df_anonymized \<Rightarrow>
                        (let preview = df_anonymized\<lparr>df_rows := take 10 (df_rows df_anonymized)\<rparr>
                         in (case output_path of
                               Some p \<Rightarrow>
                                 if p \<noteq> []
                                 then Inr (result\<lparr>anonymized_file := Some p,
                                                  anonymized_preview := Some preview\<rparr>,
                                           Some df_anonymized)
                                 else Inr (result\<lparr>anonymized_preview := Some preview\<rparr>, None)
                             | None \<Rightarrow> Inr (result\<lparr>anonymized_preview := Some preview\<rparr>, None))))
              else Inr (result, None)))"

text \<open>
  What the loop body makes of one cell: a missing cell and a cell without findings stay,
  a cell with findings takes the anonymizer's text.
\<close>

definition redact_cell ::
  "analyzer_engine \<Rightarrow> anonymizer_engine \<Rightarrow> real \<Rightarrow> string list option \<Rightarrow> cell
     \<Rightarrow> exn + cell" where
  "redact_cell analyzer anonymizer threshold entities c =
     (case c of
        Missing \<Rightarrow> Inr Missing
      | Val value_str \<Rightarrow>
          (case fst (csv_analyze_text analyzer value_str ''en'' threshold entities) of
             Inl e \<Rightarrow> Inl e
           | Inr fs \<Rightarrow>
               if fs \<noteq> []
               then (case anonymizer value_str (map to_recognizer_result fs) of
                       Inl e \<Rightarrow> Inl e
                     | Inr anonymized \<Rightarrow> Inr (Val anonymized))
               else Inr (Val value_str)))"

text \<open>The state of the cells after the loops, for the row labels and columns visited.\<close>

definition column_done ::
  "analyzer_engine \<Rightarrow> anonymizer_engine \<Rightarrow> real \<Rightarrow> string list option \<Rightarrow> nat
     \<Rightarrow> nat set \<Rightarrow> row list \<Rightarrow> row list \<Rightarrow> bool" where
  "column_done analyzer anonymizer threshold entities j done rows rows' =
     (map length rows' = map length rows \<and>
      (\<forall>i < length rows.
         (i \<in> done \<longrightarrow>
            redact_cell analyzer anonymizer threshold entities (rows ! i ! j) = Inr (rows' ! i ! j))
         \<and> (i \<notin> done \<longrightarrow> rows' ! i = rows ! i)
         \<and> (\<forall>k. k \<noteq> j \<longrightarrow> rows' ! i ! k = rows ! i ! k)))"

definition columns_done ::
  "analyzer_engine \<Rightarrow> anonymizer_engine \<Rightarrow> real \<Rightarrow> string list option
     \<Rightarrow> nat set \<Rightarrow> row list \<Rightarrow> row list \<Rightarrow> bool" where
  "columns_done analyzer anonymizer threshold entities done rows rows' =
     (map length rows' = map length rows \<and>
      (\<forall>i < length rows. \<forall>k.
         (k \<in> done \<longrightarrow>
            redact_cell analyzer anonymizer threshold entities (rows ! i ! k) = Inr (rows' ! i ! k))
         \<and> (k \<notin> done \<longrightarrow> rows' ! i ! k = rows ! i ! k)))"

text \<open>
  The frame property of the specification: every row whose label is not among the rows
  analyzed is, in the written frame, the row of the input.
\<close>

definition unsampled_rows_identical :: "(nat \<times> row) list \<Rightarrow> dataframe \<Rightarrow> dataframe \<Rightarrow> bool" where
  "unsampled_rows_identical rs df written =
     list_all (\<lambda>i. i \<in> fst ` set rs \<or> df_rows written ! i = df_rows df ! i)
       [0..<length (df_rows df)]"

subsection \<open>A small table and stand-ins for the engines\<close>

text \<open>
  An analyzer that reports a text containing an at sign as one e-mail address, an
  anonymizer that replaces the text by a placeholder, and a sampler that takes the first
  rows when it is given a seed and reads the process-wide generator (here a list of
  positions) otherwise.
\<close>

definition demo_analyzer :: analyzer_engine where
  "demo_analyzer txt language entities threshold =
     (if CHR ''@'' \<in> set txt
      then Inr [\<lparr>rr_entity_type = ''EMAIL_ADDRESS'', rr_start = 0,
                 rr_end = int (length txt), rr_score = 1\<rparr>]
      else Inr [])"

definition demo_anonymizer :: anonymizer_engine where
  "demo_anonymizer txt results = Inr ''<EMAIL_ADDRESS>''"

definition demo_sampler :: "nat list sampler" where
  "demo_sampler g df n seed =
     (case seed of
        None \<Rightarrow> Inr (take (nat n) g)
      | Some s \<Rightarrow> Inr [0..<nat n])"

definition demo_frame :: dataframe where
  "demo_frame =
     \<lparr>df_columns = [''name'', ''email'', ''phone''],
      df_rows = [[Val ''Ann'', Val ''ann@x.org'', Missing],
                 [Val ''Bob'', Val ''bob@x.org'', Val ''none''],
                 [Val ''Cy'', Val ''cy@x.org'', Missing]]\<rparr>"

section \<open>analyzers/singleton\_analyzers.py\<close>

text \<open>
  An \<open>AnalyzerSingleton\<close> object has the two engine attributes. The process state holds
  the objects created so far (an object is known by its position), the class attributes
  \<open>_instance\<close> and \<open>_initialized\<close>, and the module variable \<open>_singleton_instance\<close>. An
  attribute that is not yet set reads as \<open>None\<close>.
\<close>

record singleton_object =
  inst_analyzer_engine :: "analyzer_engine option"
  inst_anonymizer_engine :: "anonymizer_engine option"

record process =
  objects :: "singleton_object list"
  cls_instance :: "nat option"
  cls_initialized :: bool
  singleton_instance :: "nat option"

definition initial_process :: process where
  "initial_process =
     \<lparr>objects = [], cls_instance = None, cls_initialized = False, singleton_instance = None\<rparr>"

text \<open>
  What the constructors \<open>AnalyzerEngine()\<close> and \<open>AnonymizerEngine()\<close> do when they are
  called (they load a language model, and may raise): the environment of one
  construction attempt.
\<close>

record environment =
  new_analyzer_engine :: "exn + analyzer_engine"
  new_anonymizer_engine :: "exn + anonymizer_engine"

definition warm_up_text :: string where
  "warm_up_text = ''John Doe john@example.com''"

text \<open>
  \<open>_load_engines\<close>: the exception it re-raises, if any, and the object as the assignments
  made before the exception leave it.
\<close>

definition load_engines :: "environment \<Rightarrow> singleton_object \<Rightarrow> (exn + unit) \<times> singleton_object" where
  "load_engines env self =
     (case new_analyzer_engine env of
        Inl e \<Rightarrow> (Inl e, self)
      | Inr an \<Rightarrow>
          (let self1 = self\<lparr>inst_analyzer_engine := Some an\<rparr>
           in case new_anonymizer_engine env of
                Inl e \<Rightarrow> (Inl e, self1)
              | Inr no \<Rightarrow>
                  (let self2 = self1\<lparr>inst_anonymizer_engine := Some no\<rparr>
                   in case an warm_up_text ''en'' None None of
                        Inl e \<Rightarrow> (Inl e, self2)
                      | Inr test_results \<Rightarrow> (Inr (), self2))))"

text \<open>\<open>__new__\<close>, run alone: the object it returns and the state it leaves.\<close>

definition singleton_new :: "process \<Rightarrow> nat \<times> process" where
  "singleton_new p =
     (case cls_instance p of
        None \<Rightarrow>
          (let a = length (objects p)
           in (a, p\<lparr>objects := objects p @ [\<lparr>inst_analyzer_engine = None,
                                               inst_anonymizer_engine = None\<rparr>],
                    cls_instance := Some a\<rparr>))
      | Some a \<Rightarrow> (a, p))"

text \<open>\<open>__init__\<close> on the object \<open>self\<close>, run alone.\<close>

definition singleton_init :: "environment \<Rightarrow> nat \<Rightarrow> process \<Rightarrow> (exn + unit) \<times> process" where
  "singleton_init env self p =
     (if \<not> cls_initialized p
      then (let cleared = (objects p ! self)\<lparr>inst_analyzer_engine := None,
                                              inst_anonymizer_engine := None\<rparr>;
                (r, loaded) = load_engines env cleared;
                p1 = p\<lparr>objects := (objects p)[self := loaded]\<rparr>
            in case r of
                 Inl e \<Rightarrow> (Inl e, p1)
               | Inr u \<Rightarrow> (Inr (), p1\<lparr>cls_initialized := True\<rparr>))
      else (Inr (), p))"

text \<open>The call \<open>AnalyzerSingleton()\<close>: \<open>__new__\<close>, then \<open>__init__\<close> on its result.\<close>

definition analyzer_singleton :: "environment \<Rightarrow> process \<Rightarrow> (exn + nat) \<times> process" where
  "analyzer_singleton env p =
     (let (self, p1) = singleton_new p
      in case singleton_init env self p1 of
           (Inl e, p2) \<Rightarrow> (Inl e, p2)
         | (Inr u, p2) \<Rightarrow> (Inr self, p2))"

definition get_analyzer_singleton :: "environment \<Rightarrow> process \<Rightarrow> (exn + nat) \<times> process" where
  "get_analyzer_singleton env p =
     (case singleton_instance p of
        None \<Rightarrow>
          (case analyzer_singleton env p of
             (Inl e, p1) \<Rightarrow> (Inl e, p1)
           | (Inr a, p1) \<Rightarrow> (Inr a, p1\<lparr>singleton_instance := Some a\<rparr>))
      | Some a \<Rightarrow> (Inr a, p))"

text \<open>The properties \<open>analyzer\<close> and \<open>anonymizer\<close> of the object \<open>self\<close>.\<close>

definition analyzer_of :: "process \<Rightarrow> nat \<Rightarrow> exn + analyzer_engine" where
  "analyzer_of p self =
     (case inst_analyzer_engine (objects p ! self) of
        None \<Rightarrow> Inl (NotInitialized ''AnalyzerEngine not initialized'')
      | Some an \<Rightarrow> Inr an)"

definition anonymizer_of :: "process \<Rightarrow> nat \<Rightarrow> exn + anonymizer_engine" where
  "anonymizer_of p self =
     (case inst_anonymizer_engine (objects p ! self) of
        None \<Rightarrow> Inl (NotInitialized ''AnonymizerEngine not initialized'')
      | Some no \<Rightarrow> Inr no)"

text \<open>
  The constructor shared by \<open>OptimizedPDFAnalyzer\<close> and \<open>OptimizedImageAnalyzer\<close>, and a
  detection made through a newly constructed analyzer.
\<close>

record optimized_analyzer =
  oa_singleton :: nat
  oa_analyzer :: analyzer_engine
  oa_anonymizer :: anonymizer_engine

definition new_optimized_analyzer ::
  "environment \<Rightarrow> process \<Rightarrow> (exn + optimized_analyzer) \<times> process" where
  "new_optimized_analyzer env p =
     (case get_analyzer_singleton env p of
        (Inl e, p1) \<Rightarrow> (Inl e, p1)
      | (Inr a, p1) \<Rightarrow>
          (case analyzer_of p1 a of
             Inl e \<Rightarrow> (Inl e, p1)
           | Inr an \<Rightarrow>
               (case anonymizer_of p1 a of
                  Inl e \<Rightarrow> (Inl e, p1)
                | Inr no \<Rightarrow>
                    (Inr \<lparr>oa_singleton = a, oa_analyzer = an, oa_anonymizer = no\<rparr>, p1))))"

definition pdf_detect ::
  "environment \<Rightarrow> process \<Rightarrow> string \<Rightarrow> real \<Rightarrow> string list option
     \<Rightarrow> (exn + finding list) \<times> process" where
  "pdf_detect env p txt threshold entities =
     (case new_optimized_analyzer env p of
        (Inl e, p1) \<Rightarrow> (Inl e, p1)
      | (Inr oa, p1) \<Rightarrow>
          (fst (pdf_analyze_text (oa_analyzer oa) txt ''en'' threshold entities), p1))"

definition image_detect ::
  "environment \<Rightarrow> process \<Rightarrow> string \<Rightarrow> real \<Rightarrow> string list option
     \<Rightarrow> (exn + finding list) \<times> process" where
  "image_detect env p txt threshold entities =
     (case new_optimized_analyzer env p of
        (Inl e, p1) \<Rightarrow> (Inl e, p1)
      | (Inr oa, p1) \<Rightarrow>
          (fst (image_analyze_text (oa_analyzer oa) txt ''en'' threshold entities), p1))"

text \<open>
  The outcome of one construction attempt: the exception of the first step that raises
  (a constructor, or the warm-up call), or the two engines.
\<close>

definition construction :: "environment \<Rightarrow> exn + (analyzer_engine \<times> anonymizer_engine)" where
  "construction env =
     (case new_analyzer_engine env of
        Inl e \<Rightarrow> Inl e
      | Inr an \<Rightarrow>
          (case new_anonymizer_engine env of
             Inl e \<Rightarrow> Inl e
           | Inr no \<Rightarrow>
               (case an warm_up_text ''en'' None None of
                  Inl e \<Rightarrow> Inl e
                | Inr test_results \<Rightarrow> Inr (an, no))))"

text \<open>The class attribute \<open>_instance\<close>, when set, is an object of the process.\<close>

definition heap_ok :: "process \<Rightarrow> bool" where
  "heap_ok p = (case cls_instance p of None \<Rightarrow> True | Some a \<Rightarrow> a < length (objects p))"

text \<open>
  Stand-ins: an analyzer engine whose every call raises, so that the warm-up fails, and
  the environments in which the constructors return it, or the working one.
\<close>

definition failing_analyzer :: analyzer_engine where
  "failing_analyzer txt language entities threshold = Inl (EngineFailure ''model not loaded'')"

definition failing_environment :: environment where
  "failing_environment =
     \<lparr>new_analyzer_engine = Inr failing_analyzer, new_anonymizer_engine = Inr demo_anonymizer\<rparr>"

definition working_environment :: environment where
  "working_environment =
     \<lparr>new_analyzer_engine = Inr demo_analyzer, new_anonymizer_engine = Inr demo_anonymizer\<rparr>"

text \<open>
  An object is warmed up when it holds both engines and the warm-up call on its analyzer
  engine returns. A process state is settled when the module variable is unset and the
  class is not marked initialized, or the module variable is the object of the class,
  marked initialized and warmed up.
\<close>

definition warmed_up :: "singleton_object \<Rightarrow> bool" where
  "warmed_up obj =
     (case (inst_analyzer_engine obj, inst_anonymizer_engine obj) of
        (Some an, Some no) \<Rightarrow> \<not> isl (an warm_up_text ''en'' None None)
      | _ \<Rightarrow> False)"

definition settled :: "process \<Rightarrow> bool" where
  "settled p =
     (heap_ok p \<and>
      (case singleton_instance p of
         None \<Rightarrow> \<not> cls_initialized p
       | Some a \<Rightarrow> cls_initialized p \<and> cls_instance p = Some a \<and> warmed_up (objects p ! a)))"

section \<open>Calls of get\_analyzer\_singleton that run at the same time\<close>

text \<open>
  Each call of \<open>get_analyzer_singleton\<close> is an activation with a number, a program
  counter and its local \<open>self\<close>; the activations take their steps in any order. A step is
  one read or write of a shared variable, or the acquisition or release of the lock
  \<open>threading.Lock()\<close>, which a call can acquire only while no call holds it. The program
  counter names the statement the call executes next.
\<close>

datatype pc =
    Start          \<comment> \<open>\<open>if _singleton_instance is None\<close>\<close>
  | New_check      \<comment> \<open>\<open>__new__\<close>: the outer \<open>if cls._instance is None\<close>\<close>
  | New_acquire    \<comment> \<open>\<open>with cls._lock\<close>\<close>
  | New_recheck    \<comment> \<open>the inner \<open>if cls._instance is None\<close>\<close>
  | New_create     \<comment> \<open>\<open>cls._instance = super().__new__(cls)\<close>\<close>
  | New_release    \<comment> \<open>the end of the \<open>with\<close> block\<close>
  | New_return     \<comment> \<open>\<open>return cls._instance\<close>\<close>
  | Init_check     \<comment> \<open>\<open>__init__\<close>: the outer \<open>if not _initialized\<close>\<close>
  | Init_acquire   \<comment> \<open>\<open>with AnalyzerSingleton._lock\<close>\<close>
  | Init_recheck   \<comment> \<open>the inner \<open>if not _initialized\<close>\<close>
  | Init_load      \<comment> \<open>the attributes are reset and \<open>_load_engines\<close> runs\<close>
  | Init_mark      \<comment> \<open>\<open>_initialized = True\<close>\<close>
  | Init_release   \<comment> \<open>the end of the \<open>with\<close> block\<close>
  | Assign         \<comment> \<open>\<open>_singleton_instance = AnalyzerSingleton()\<close>\<close>
  | Final_return   \<comment> \<open>\<open>return _singleton_instance\<close>\<close>
  | Returned "nat option"  \<comment> \<open>the call has returned this value (\<open>None\<close> or an object)\<close>
  | Raised         \<comment> \<open>\<open>_load_engines\<close> raised, and the call with it\<close>

record system =
  pc_of :: "nat \<Rightarrow> pc"
  self_of :: "nat \<Rightarrow> nat option"
  var_instance :: "nat option"
  var_initialized :: bool
  var_singleton :: "nat option"
  lock_holder :: "nat option"
  created :: nat

definition initial_system :: system where
  "initial_system =
     \<lparr>pc_of = (\<lambda>t. Start), self_of = (\<lambda>t. None), var_instance = None,
      var_initialized = False, var_singleton = None, lock_holder = None, created = 0\<rparr>"

text \<open>
  One step of the call \<open>t\<close>. \<open>type.__call__\<close> runs \<open>__init__\<close> only on an object:
  were \<open>__new__\<close> to return \<open>None\<close>, the call would go on to the assignment with it.
  \<open>_load_engines\<close> returns or raises, as the environment decides; either way the
  \<open>with\<close> block releases the lock.
\<close>

inductive step :: "system \<Rightarrow> system \<Rightarrow> bool" where
  start_unset:
    "pc_of s t = Start \<Longrightarrow> var_singleton s = None \<Longrightarrow>
     step s (s\<lparr>pc_of := (pc_of s)(t := New_check)\<rparr>)"
| start_set:
    "pc_of s t = Start \<Longrightarrow> var_singleton s = Some a \<Longrightarrow>
     step s (s\<lparr>pc_of := (pc_of s)(t := Final_return)\<rparr>)"
| new_check_unset:
    "pc_of s t = New_check \<Longrightarrow> var_instance s = None \<Longrightarrow>
     step s (s\<lparr>pc_of := (pc_of s)(t := New_acquire)\<rparr>)"
| new_check_set:
    "pc_of s t = New_check \<Longrightarrow> var_instance s = Some a \<Longrightarrow>
     step s (s\<lparr>pc_of := (pc_of s)(t := New_return)\<rparr>)"
| new_acquire:
    "pc_of s t = New_acquire \<Longrightarrow> lock_holder s = None \<Longrightarrow>
     step s (s\<lparr>pc_of := (pc_of s)(t := New_recheck), lock_holder := Some t\<rparr>)"
| new_recheck_unset:
    "pc_of s t = New_recheck \<Longrightarrow> var_instance s = None \<Longrightarrow>
     step s (s\<lparr>pc_of := (pc_of s)(t := New_create)\<rparr>)"
| new_recheck_set:
    "pc_of s t = New_recheck \<Longrightarrow> var_instance s = Some a \<Longrightarrow>
     step s (s\<lparr>pc_of := (pc_of s)(t := New_release)\<rparr>)"
| new_create:
    "pc_of s t = New_create \<Longrightarrow>
     step s (s\<lparr>pc_of := (pc_of s)(t := New_release),
               var_instance := Some (created s), created := created s + 1\<rparr>)"
| new_release:
    "pc_of s t = New_release \<Longrightarrow>
     step s (s\<lparr>pc_of := (pc_of s)(t := New_return), lock_holder := None\<rparr>)"
| new_return_object:
    "pc_of s t = New_return \<Longrightarrow> var_instance s = Some a \<Longrightarrow>
     step s (s\<lparr>pc_of := (pc_of s)(t := Init_check), self_of := (self_of s)(t := Some a)\<rparr>)"
| new_return_none:
    "pc_of s t = New_return \<Longrightarrow> var_instance s = None \<Longrightarrow>
     step s (s\<lparr>pc_of := (pc_of s)(t := Assign), self_of := (self_of s)(t := None)\<rparr>)"
| init_check_unset:
    "pc_of s t = Init_check \<Longrightarrow> \<not> var_initialized s \<Longrightarrow>
     step s (s\<lparr>pc_of := (pc_of s)(t := Init_acquire)\<rparr>)"
| init_check_set:
    "pc_of s t = Init_check \<Longrightarrow> var_initialized s \<Longrightarrow>
     step s (s\<lparr>pc_of := (pc_of s)(t := Assign)\<rparr>)"
| init_acquire:
    "pc_of s t = Init_acquire \<Longrightarrow> lock_holder s = None \<Longrightarrow>
     step s (s\<lparr>pc_of := (pc_of s)(t := Init_recheck), lock_holder := Some t\<rparr>)"
| init_recheck_unset:
    "pc_of s t = Init_recheck \<Longrightarrow> \<not> var_initialized s \<Longrightarrow>
     step s (s\<lparr>pc_of := (pc_of s)(t := Init_load)\<rparr>)"
| init_recheck_set:
    "pc_of s t = Init_recheck \<Longrightarrow> var_initialized s \<Longrightarrow>
     step s (s\<lparr>pc_of := (pc_of s)(t := Init_release)\<rparr>)"
| init_load_returns:
    "pc_of s t = Init_load \<Longrightarrow>
     step s (s\<lparr>pc_of := (pc_of s)(t := Init_mark)\<rparr>)"
| init_load_raises:
    "pc_of s t = Init_load \<Longrightarrow>
     step s (s\<lparr>pc_of := (pc_of s)(t := Raised), lock_holder := None\<rparr>)"
| init_mark:
    "pc_of s t = Init_mark \<Longrightarrow>
     step s (s\<lparr>pc_of := (pc_of s)(t := Init_release), var_initialized := True\<rparr>)"
| init_release:
    "pc_of s t = Init_release \<Longrightarrow>
     step s (s\<lparr>pc_of := (pc_of s)(t := Assign), lock_holder := None\<rparr>)"
| assign:
    "pc_of s t = Assign \<Longrightarrow>
     step s (s\<lparr>pc_of := (pc_of s)(t := Final_return), var_singleton := self_of s t\<rparr>)"
| final_return:
    "pc_of s t = Final_return \<Longrightarrow>
     step s (s\<lparr>pc_of := (pc_of s)(t := Returned (var_singleton s))\<rparr>)"

inductive reachable :: "system \<Rightarrow> bool" where
  reachable_initial: "reachable initial_system"
| reachable_step: "reachable s \<Longrightarrow> step s s' \<Longrightarrow> reachable s'"

text \<open>The statements inside a \<open>with\<close> block, and those after \<open>__new__\<close> has returned.\<close>

fun in_with_block :: "pc \<Rightarrow> bool" where
  "in_with_block New_recheck = True"
| "in_with_block New_create = True"
| "in_with_block New_release = True"
| "in_with_block Init_recheck = True"
| "in_with_block Init_load = True"
| "in_with_block Init_mark = True"
| "in_with_block Init_release = True"
| "in_with_block other = False"

fun in_init :: "pc \<Rightarrow> bool" where
  "in_init Init_check = True"
| "in_init Init_acquire = True"
| "in_init Init_recheck = True"
| "in_init Init_load = True"
| "in_init Init_mark = True"
| "in_init Init_release = True"
| "in_init other = False"

text \<open>
  The invariant of the reachable states: what holds of the shared variables, and what
  holds of each call at its program counter.
\<close>

definition shared_ok :: "system \<Rightarrow> bool" where
  "shared_ok s =
     ((var_instance s = None \<and> created s = 0 \<or> var_instance s = Some 0 \<and> created s = 1)
      \<and> (var_singleton s = None \<or> var_singleton s = var_instance s))"

definition call_ok :: "system \<Rightarrow> nat \<Rightarrow> bool" where
  "call_ok s t =
     (in_with_block (pc_of s t) = (lock_holder s = Some t)
      \<and> (pc_of s t = New_create \<longrightarrow> var_instance s = None)
      \<and> (pc_of s t = New_release \<or> pc_of s t = New_return \<longrightarrow> var_instance s \<noteq> None)
      \<and> (in_init (pc_of s t) \<or> pc_of s t = Assign \<longrightarrow>
             self_of s t = var_instance s \<and> var_instance s \<noteq> None)
      \<and> (pc_of s t = Final_return \<longrightarrow> var_singleton s \<noteq> None)
      \<and> (\<forall>a. pc_of s t = Returned a \<longrightarrow> a = var_instance s \<and> a \<noteq> None))"

definition singleton_invariant :: "system \<Rightarrow> bool" where
  "singleton_invariant s = (shared_ok s \<and> (\<forall>t. call_ok s t))"

text \<open>
  The states of a run in which the calls 0 and 1 are the only ones to take steps: their
  program counters, the \<open>self\<close> of call 0 and the shared variables.
\<close>

definition two_calls ::
  "pc \<Rightarrow> pc \<Rightarrow> nat option \<Rightarrow> nat option \<Rightarrow> bool \<Rightarrow> nat option \<Rightarrow> nat option \<Rightarrow> nat
     \<Rightarrow> system" where
  "two_calls p0 p1 self0 inst ini sing lock cr =
     \<lparr>pc_of = (\<lambda>t. if t = 0 then p0 else if t = 1 then p1 else Start),
      self_of = (\<lambda>t. if t = 0 then self0 else None),
      var_instance = inst, var_initialized = ini, var_singleton = sing,
      lock_holder = lock, created = cr\<rparr>"

section \<open>Facts about the string operations\<close>

lemma starts_with_prefix: "starts_with a s \<longleftrightarrow> prefix a s"
  by (induction a s rule: starts_with.induct) auto

lemma str_in_sublist: "str_in a s \<longleftrightarrow> sublist a s"
  by (induction s) (auto simp: starts_with_prefix sublist_Cons_right)

lemma split_ws_from_concat:
  "concat (split_ws_from cur s) = cur @ filter (\<lambda>c. \<not> is_space c) s"
  by (induction cur s rule: split_ws_from.induct) auto

lemma join_Cons: "join sep (x # xs) = (if xs = [] then x else x @ sep @ join sep xs)"
  by (cases xs) simp_all

lemma join_empty: "join [] xs = concat xs"
  by (induction xs) (simp_all add: join_Cons)

lemma normalize_target_filter:
  "normalize_target t = lower (filter (\<lambda>c. \<not> is_space c) t)"
  by (simp add: normalize_target_def join_empty split_ws_def split_ws_from_concat)

section \<open>The position resolver\<close>

lemma find_step_words:
  "i < length ws \<Longrightarrow>
   find_step (ocr_of_words ws) nt positions i =
     Inr (positions @ (if word_matches nt (ws ! i) then [word_box (ws ! i)] else []))"
  by (simp add: find_step_def ocr_of_words_def item_def word_matches_def Let_def)

lemma find_loop_words:
  "\<forall>i \<in> set idxs. i < length ws \<Longrightarrow>
   find_loop (ocr_of_words ws) nt positions idxs =
     Inr (positions @ map word_box (filter (word_matches nt) (map (\<lambda>i. ws ! i) idxs)))"
  by (induction idxs arbitrary: positions) (simp_all add: find_step_words)

lemma find_text_positions_words:
  "find_text_positions (ocr_of_words ws) t =
     Inr (map word_box (filter (word_matches (normalize_target t)) ws))"
proof -
  have "map (\<lambda>i. ws ! i) [0..<length ws] = ws"
    by (rule map_nth)
  moreover have "length (ocr_text (ocr_of_words ws)) = length ws"
    by (simp add: ocr_of_words_def)
  ultimately show ?thesis
    by (simp add: find_text_positions_def find_loop_words)
qed

text \<open>
  C1 (as amended). For every list of OCR words and every target text, the resolver returns,
  in reading order, exactly the boxes of the words whose stripped text is not empty and
  whose stripped, lowercased text is contained in the whitespace-free, lowercased target
  or contains it. For the words JOHN at (0,0,40,10) and DOE at (45,0,40,10) and the
  target "John Doe" it returns both boxes.
\<close>

theorem find_text_positions_bidirectional:
  "find_text_positions (ocr_of_words ws) target =
     Inr (map word_box
       (filter (\<lambda>w. strip (word_text w) \<noteq> [] \<and>
                  (sublist (lower (strip (word_text w)))
                           (lower (filter (\<lambda>c. \<not> is_space c) target))
                   \<or> sublist (lower (filter (\<lambda>c. \<not> is_space c) target))
                              (lower (strip (word_text w)))))
          ws))
   \<and> find_text_positions
       (ocr_of_words
          [\<lparr>word_text = ''JOHN'',
            word_box = \<lparr>box_x = 0, box_y = 0, box_width = 40, box_height = 10\<rparr>\<rparr>,
           \<lparr>word_text = ''DOE'',
            word_box = \<lparr>box_x = 45, box_y = 0, box_width = 40, box_height = 10\<rparr>\<rparr>])
       ''John Doe''
     = Inr [\<lparr>box_x = 0, box_y = 0, box_width = 40, box_height = 10\<rparr>,
            \<lparr>box_x = 45, box_y = 0, box_width = 40, box_height = 10\<rparr>]"
proof
  have "word_matches (normalize_target target) =
        (\<lambda>w. strip (word_text w) \<noteq> [] \<and>
                  (sublist (lower (strip (word_text w)))
                           (lower (filter (\<lambda>c. \<not> is_space c) target))
                   \<or> sublist (lower (filter (\<lambda>c. \<not> is_space c) target))
                              (lower (strip (word_text w)))))"
    by (rule ext) (simp add: word_matches_def str_in_sublist normalize_target_filter)
  then show "find_text_positions (ocr_of_words ws) target =
     Inr (map word_box
       (filter (\<lambda>w. strip (word_text w) \<noteq> [] \<and>
                  (sublist (lower (strip (word_text w)))
                           (lower (filter (\<lambda>c. \<not> is_space c) target))
                   \<or> sublist (lower (filter (\<lambda>c. \<not> is_space c) target))
                              (lower (strip (word_text w)))))
          ws))"
    by (simp add: find_text_positions_words)
next
  show "find_text_positions
       (ocr_of_words
          [\<lparr>word_text = ''JOHN'',
            word_box = \<lparr>box_x = 0, box_y = 0, box_width = 40, box_height = 10\<rparr>\<rparr>,
           \<lparr>word_text = ''DOE'',
            word_box = \<lparr>box_x = 45, box_y = 0, box_width = 40, box_height = 10\<rparr>\<rparr>])
       ''John Doe''
     = Inr [\<lparr>box_x = 0, box_y = 0, box_width = 40, box_height = 10\<rparr>,
            \<lparr>box_x = 45, box_y = 0, box_width = 40, box_height = 10\<rparr>]"
    by code_simp
qed

text \<open>
  C1 as the specification states it fails on an OCR entry whose text is empty, which
  pytesseract emits for every page, block, paragraph and line: the empty string is
  contained in every target, yet the guard \<open>if word:\<close> skips the entry. Here the page
  entry (0,0,100,20) is not returned for the target "John".
\<close>

theorem find_text_positions_skips_empty_word:
  "find_text_positions
     (ocr_of_words
        [\<lparr>word_text = [],
          word_box = \<lparr>box_x = 0, box_y = 0, box_width = 100, box_height = 20\<rparr>\<rparr>,
         \<lparr>word_text = ''JOHN'',
          word_box = \<lparr>box_x = 0, box_y = 0, box_width = 40, box_height = 10\<rparr>\<rparr>])
     ''John''
   \<noteq> Inr (claimed_positions
        [\<lparr>word_text = [],
          word_box = \<lparr>box_x = 0, box_y = 0, box_width = 100, box_height = 20\<rparr>\<rparr>,
         \<lparr>word_text = ''JOHN'',
          word_box = \<lparr>box_x = 0, box_y = 0, box_width = 40, box_height = 10\<rparr>\<rparr>]
        ''John'')"
  by code_simp

text \<open>
  C9. When the normalization of the target (whitespace removed, lowercased) is the empty
  string, the resolver returns the box of every OCR word whose stripped text is not
  empty, whatever the word is.
\<close>

theorem find_text_positions_empty_target:
  "lower (filter (\<lambda>c. \<not> is_space c) target) = [] \<Longrightarrow>
   find_text_positions (ocr_of_words ws) target =
     Inr (map word_box (filter (\<lambda>w. strip (word_text w) \<noteq> []) ws))"
proof -
  assume "lower (filter (\<lambda>c. \<not> is_space c) target) = []"
  then have "normalize_target target = []"
    by (simp add: normalize_target_filter)
  then have "word_matches (normalize_target target) = (\<lambda>w. strip (word_text w) \<noteq> [])"
    by (auto simp: word_matches_def fun_eq_iff str_in_sublist)
  then show ?thesis
    by (simp add: find_text_positions_words)
qed

theorem find_text_positions_empty_target_witness:
  "lower (filter (\<lambda>c. \<not> is_space c) ''  '') = [] \<and>
   find_text_positions
     (ocr_of_words
        [\<lparr>word_text = ''JOHN'',
          word_box = \<lparr>box_x = 0, box_y = 0, box_width = 40, box_height = 10\<rparr>\<rparr>,
         \<lparr>word_text = '' '',
          word_box = \<lparr>box_x = 41, box_y = 0, box_width = 3, box_height = 10\<rparr>\<rparr>,
         \<lparr>word_text = ''42'',
          word_box = \<lparr>box_x = 45, box_y = 0, box_width = 20, box_height = 10\<rparr>\<rparr>])
     ''  ''
   = Inr [\<lparr>box_x = 0, box_y = 0, box_width = 40, box_height = 10\<rparr>,
          \<lparr>box_x = 45, box_y = 0, box_width = 20, box_height = 10\<rparr>]"
proof -
  have h: "lower (filter (\<lambda>c. \<not> is_space c) ''  '') = []"
    by code_simp
  have s: "map word_box (filter (\<lambda>w. strip (word_text w) \<noteq> [])
        [\<lparr>word_text = ''JOHN'',
          word_box = \<lparr>box_x = 0, box_y = 0, box_width = 40, box_height = 10\<rparr>\<rparr>,
         \<lparr>word_text = '' '',
          word_box = \<lparr>box_x = 41, box_y = 0, box_width = 3, box_height = 10\<rparr>\<rparr>,
         \<lparr>word_text = ''42'',
          word_box = \<lparr>box_x = 45, box_y = 0, box_width = 20, box_height = 10\<rparr>\<rparr>])
      = [\<lparr>box_x = 0, box_y = 0, box_width = 40, box_height = 10\<rparr>,
          \<lparr>box_x = 45, box_y = 0, box_width = 20, box_height = 10\<rparr>]"
    by code_simp
  show ?thesis
    using h find_text_positions_empty_target [OF h] s by simp
qed

section \<open>The analyze\_text adapters\<close>

lemma all_dropWhile: "(\<forall>x \<in> set (dropWhile P s). P x) \<longleftrightarrow> (\<forall>x \<in> set s. P x)"
  by (induction s) auto

lemma strip_Nil_iff: "strip s = [] \<longleftrightarrow> (\<forall>c \<in> set s. is_space c)"
  by (simp add: strip_def rstrip_def lstrip_def all_dropWhile)

lemma convert_results_text:
  "convert_results t res = Inr fs \<Longrightarrow> f \<in> set fs \<Longrightarrow>
   f_text f = py_slice t (f_start f) (f_end f)"
  by (auto simp: convert_results_def to_finding_def split: sum.splits)

lemma py_slice_in_range:
  "0 \<le> a \<Longrightarrow> a \<le> b \<Longrightarrow> b \<le> int (length s) \<Longrightarrow>
   py_slice s a b = take (nat (b - a)) (drop (nat a) s)"
  by (simp add: py_slice_def slice_bound_def Let_def min_def)

text \<open>
  The CSV and the image adapter return the empty list on an empty or whitespace-only
  text, and invoke the engine on no text.
\<close>

lemma csv_analyze_text_blank:
  "\<forall>c \<in> set t. is_space c \<Longrightarrow>
   csv_analyze_text analyzer t language threshold entities = (Inr [], [])"
  by (simp add: csv_analyze_text_def strip_Nil_iff)

lemma image_analyze_text_blank:
  "\<forall>c \<in> set t. is_space c \<Longrightarrow>
   image_analyze_text analyzer t language threshold entities = (Inr [], [])"
  by (simp add: image_analyze_text_def strip_Nil_iff)

text \<open>
  C4. The PDF adapter has no such guard: it invokes the engine on every text, the empty
  one included, and returns what the engine returns or raises. On the empty text, with an
  engine that raises at every call, the PDF adapter raises where the image adapter
  returns the empty list.
\<close>

theorem pdf_analyze_text_invokes_engine:
  "snd (pdf_analyze_text analyzer t language threshold entities) = [t]
   \<and> pdf_analyze_text (\<lambda>t l es th. Inl (EngineFailure ''analyze'')) [] ''en'' 0.35 None
       = (Inl (EngineFailure ''analyze''), [[]])
   \<and> image_analyze_text (\<lambda>t l es th. Inl (EngineFailure ''analyze'')) [] ''en'' 0.35 None
       = (Inr [], [])"
  by (simp add: pdf_analyze_text_def image_analyze_text_def convert_results_def)

text \<open>
  C10. In every adapter, the text of each finding returned for an input text is the
  slice of that text between the finding's start and end offsets; when the offsets lie
  in the text, in order, that is the substring from start up to end.
\<close>

theorem finding_text_is_slice:
  "fst (csv_analyze_text analyzer t language threshold entities) = Inr fs
   \<or> fst (pdf_analyze_text analyzer t language threshold entities) = Inr fs
   \<or> fst (image_analyze_text analyzer t language threshold entities) = Inr fs \<Longrightarrow>
   f \<in> set fs \<Longrightarrow>
   f_text f = py_slice t (f_start f) (f_end f)
   \<and> (0 \<le> f_start f \<and> f_start f \<le> f_end f \<and> f_end f \<le> int (length t) \<longrightarrow>
        f_text f = take (nat (f_end f - f_start f)) (drop (nat (f_start f)) t))"
proof -
  assume a: "fst (csv_analyze_text analyzer t language threshold entities) = Inr fs
   \<or> fst (pdf_analyze_text analyzer t language threshold entities) = Inr fs
   \<or> fst (image_analyze_text analyzer t language threshold entities) = Inr fs"
    and f: "f \<in> set fs"
  from a f have "convert_results t (analyzer t language entities (Some threshold)) = Inr fs"
    by (auto simp: csv_analyze_text_def pdf_analyze_text_def image_analyze_text_def
             split: if_splits)
  with f have "f_text f = py_slice t (f_start f) (f_end f)"
    by (rule convert_results_text[rotated])
  then show ?thesis
    by (simp add: py_slice_in_range)
qed

theorem finding_text_is_slice_witness:
  "fst (pdf_analyze_text
          (\<lambda>t l es th. Inr [\<lparr>rr_entity_type = ''EMAIL_ADDRESS'', rr_start = 9, rr_end = 25,
                               rr_score = 1\<rparr>])
          ''Contact: john@example.com'' ''en'' 0.35 None)
     = Inr [\<lparr>f_entity_type = ''EMAIL_ADDRESS'', f_text = ''john@example.com'',
             f_start = 9, f_end = 25, f_score = 1\<rparr>]
   \<and> ''john@example.com'' = py_slice ''Contact: john@example.com'' 9 25
   \<and> ''john@example.com'' = take 16 (drop 9 ''Contact: john@example.com'')"
proof -
  let ?eng = "\<lambda>(t::string) (l::string) (es::string list option) (th::real option).
       (Inr [\<lparr>rr_entity_type = ''EMAIL_ADDRESS'', rr_start = 9, rr_end = 25,
              rr_score = 1\<rparr>] :: exn + recognizer_result list)"
  let ?f = "\<lparr>f_entity_type = ''EMAIL_ADDRESS'', f_text = ''john@example.com'',
             f_start = 9, f_end = 25, f_score = 1\<rparr>"
  have run: "fst (pdf_analyze_text ?eng ''Contact: john@example.com'' ''en'' 0.35 None)
      = Inr [?f]"
    by (simp add: pdf_analyze_text_def convert_results_def to_finding_def py_slice_def
        slice_bound_def)
  have mem: "?f \<in> set [?f]"
    by simp
  from finding_text_is_slice [of ?eng "''Contact: john@example.com''" "''en''" "0.35" None
      "[?f]" ?f] run mem
  show ?thesis
    by simp
qed

section \<open>The PDF re-render\<close>

subsection \<open>Replacing and splitting\<close>
lemma replace_char_Nil: "replace_char old new [] = []"
  by (simp add: replace_char_def)

lemma replace_char_Cons:
  "replace_char old new (c # s) = (if c = old then new else [c]) @ replace_char old new s"
  by (simp add: replace_char_def)

lemma replace_char_append:
  "replace_char old new (s @ t) = replace_char old new s @ replace_char old new t"
  by (simp add: replace_char_def)

lemma set_replace_char:
  "set (replace_char old new s) = (set s - {old}) \<union> (if old \<in> set s then set new else {})"
  by (induction s) (auto simp: replace_char_Cons replace_char_Nil)

lemma replace_char_id: "old \<notin> set s \<Longrightarrow> replace_char old new s = s"
  by (induction s) (auto simp: replace_char_Cons replace_char_Nil)

lemma replace_char_eq_Nil: "new \<noteq> [] \<Longrightarrow> replace_char old new s = [] \<longleftrightarrow> s = []"
  by (cases s) (auto simp: replace_char_Cons replace_char_Nil)

lemma split_nl_from_not_Nil: "split_nl_from cur s \<noteq> []"
  by (induction cur s rule: split_nl_from.induct) auto

lemma join_split_nl_from: "join [NL] (split_nl_from cur s) = cur @ s"
  by (induction cur s rule: split_nl_from.induct)
     (auto simp: join_Cons split_nl_from_not_Nil)

lemma split_nl_from_no_nl:
  "NL \<notin> set cur \<Longrightarrow> l \<in> set (split_nl_from cur s) \<Longrightarrow> NL \<notin> set l"
  by (induction cur s rule: split_nl_from.induct) (auto split: if_splits)

lemma split_nl_from_replace:
  "old \<noteq> NL \<Longrightarrow> NL \<notin> set new \<Longrightarrow>
   split_nl_from (replace_char old new cur) (replace_char old new s)
     = map (replace_char old new) (split_nl_from cur s)"
proof (induction cur s rule: split_nl_from.induct)
  case (1 cur)
  then show ?case by (simp add: replace_char_Nil)
next
  case (2 cur c cs)
  have skip: "split_nl_from a (new @ r) = split_nl_from (a @ new) r" for a r
    using \<open>NL \<notin> set new\<close> by (induction new arbitrary: a) auto
  from 2 show ?case
    by (auto simp: replace_char_Cons replace_char_Nil replace_char_append skip)
qed

lemma split_nlnl_from_not_Nil: "split_nlnl_from cur s \<noteq> []"
  by (induction cur s rule: split_nlnl_from.induct) auto

lemma join_split_nlnl_from: "join [NL, NL] (split_nlnl_from cur s) = cur @ s"
  by (induction cur s rule: split_nlnl_from.induct)
     (auto simp: join_Cons split_nlnl_from_not_Nil)

lemma split_nlnl_from_step:
  "c \<noteq> NL \<Longrightarrow> split_nlnl_from cur (c # s) = split_nlnl_from (cur @ [c]) s"
  by (cases s) auto

lemma split_nlnl_from_skip:
  "NL \<notin> set w \<Longrightarrow> split_nlnl_from cur (w @ s) = split_nlnl_from (cur @ w) s"
  by (induction w arbitrary: cur) (auto simp: split_nlnl_from_step)

lemma split_nlnl_from_nl_skip:
  "NL \<notin> set w \<Longrightarrow> w \<noteq> [] \<Longrightarrow>
   split_nlnl_from cur (NL # w @ s) = split_nlnl_from (cur @ NL # w) s"
proof -
  assume w: "NL \<notin> set w" "w \<noteq> []"
  then obtain a w' where [simp]: "w = a # w'" by (cases w) auto
  from w have "split_nlnl_from cur (NL # w @ s) = split_nlnl_from (cur @ [NL]) (w @ s)"
    by auto
  also have "\<dots> = split_nlnl_from ((cur @ [NL]) @ w) s"
    using w(1) by (rule split_nlnl_from_skip)
  finally show ?thesis by simp
qed

lemma split_nlnl_from_replace:
  "old \<noteq> NL \<Longrightarrow> NL \<notin> set new \<Longrightarrow> new \<noteq> [] \<Longrightarrow>
   split_nlnl_from (replace_char old new cur) (replace_char old new s)
     = map (replace_char old new) (split_nlnl_from cur s)"
proof (induction cur s rule: split_nlnl_from.induct)
  case (1 cur)
  then show ?case by (simp add: replace_char_Nil)
next
  case (2 cur c)
  then show ?case
    using split_nlnl_from_skip[of new "replace_char old new cur" "[]"]
    by (auto simp: replace_char_Cons replace_char_Nil replace_char_append)
next
  case (3 cur c d cs)
  let ?r = "replace_char old new"
  show ?case
  proof (cases "c = NL \<and> d = NL")
    case True
    with 3 show ?thesis
      by (auto simp: replace_char_Cons replace_char_Nil)
  next
    case False
    with 3 have IH: "split_nlnl_from (?r (cur @ [c])) (?r (d # cs))
        = map ?r (split_nlnl_from (cur @ [c]) (d # cs))"
      by auto
    have "split_nlnl_from (?r cur) (?r (c # d # cs)) = split_nlnl_from (?r (cur @ [c])) (?r (d # cs))"
    proof (cases "c = NL")
      case cnl: True
      with False have dn: "d \<noteq> NL" by simp
      let ?w = "if d = old then new else [d]"
      have w: "NL \<notin> set ?w" "?w \<noteq> []" using dn 3 by auto
      have "?r (c # d # cs) = NL # ?w @ ?r cs"
        using cnl 3 by (simp add: replace_char_Cons)
      then have "split_nlnl_from (?r cur) (?r (c # d # cs)) = split_nlnl_from (?r cur @ NL # ?w) (?r cs)"
        using split_nlnl_from_nl_skip[OF w] by simp
      also have "\<dots> = split_nlnl_from ((?r cur @ [NL]) @ ?w) (?r cs)" by simp
      also have "\<dots> = split_nlnl_from (?r cur @ [NL]) (?w @ ?r cs)"
        using split_nlnl_from_skip[OF w(1)] by simp
      finally show ?thesis
        using cnl 3 by (simp add: replace_char_Cons replace_char_append replace_char_Nil)
    next
      case cn: False
      let ?w = "if c = old then new else [c]"
      have w: "NL \<notin> set ?w" using cn 3 by auto
      show ?thesis
        using split_nlnl_from_skip[OF w, of "?r cur" "?r (d # cs)"]
        by (simp add: replace_char_Cons replace_char_append replace_char_Nil)
    qed
    with IH False show ?thesis by auto
  qed
qed

subsection \<open>Whitespace\<close>
lemma split_ws_from_skip:
  "\<forall>c \<in> set w. \<not> is_space c \<Longrightarrow> split_ws_from cur (w @ s) = split_ws_from (cur @ w) s"
  by (induction w arbitrary: cur) auto

lemma split_ws_from_no_empty: "[] \<notin> set (split_ws_from cur s)"
  by (induction cur s rule: split_ws_from.induct) simp_all

lemma split_ws_from_chars:
  "\<forall>c \<in> set cur. \<not> is_space c \<Longrightarrow> w \<in> set (split_ws_from cur s) \<Longrightarrow>
   c \<in> set w \<Longrightarrow> \<not> is_space c"
  apply (induction cur s arbitrary: w rule: split_ws_from.induct)
   apply (simp split: if_splits)
  apply (simp split: if_splits)
  apply blast
  done

lemma split_ws_words:
  "w \<in> set (split_ws s) \<Longrightarrow> w \<noteq> [] \<and> (\<forall>c \<in> set w. \<not> is_space c)"
proof
  assume w: "w \<in> set (split_ws s)"
  then show "w \<noteq> []"
    using split_ws_from_no_empty[of "[]" s] by (auto simp: split_ws_def)
  show "\<forall>c \<in> set w. \<not> is_space c"
  proof
    fix c assume "c \<in> set w"
    with w show "\<not> is_space c"
      using split_ws_from_chars[of "[]" w s c] by (simp add: split_ws_def)
  qed
qed

lemma space_is_space: "is_space (CHR '' '')"
  by (simp add: is_space_def)

lemma split_ws_join:
  "\<forall>w \<in> set ws. w \<noteq> [] \<and> (\<forall>c \<in> set w. \<not> is_space c) \<Longrightarrow>
   split_ws (join '' '' ws) = ws"
proof (induction ws)
  case Nil
  then show ?case by (simp add: split_ws_def)
next
  case (Cons w ws)
  then have w: "w \<noteq> []" "\<forall>c \<in> set w. \<not> is_space c" by auto
  from Cons have IH: "split_ws_from [] (join '' '' ws) = ws" by (simp add: split_ws_def)
  show ?case
  proof (cases "ws = []")
    case True
    then show ?thesis
      using split_ws_from_skip[OF w(2), of "[]" "[]"] w(1)
      by (simp add: split_ws_def)
  next
    case False
    then show ?thesis
      using split_ws_from_skip[OF w(2), of "[]" "CHR '' '' # join '' '' ws"] w(1) IH
      by (simp add: split_ws_def join_Cons space_is_space)
  qed
qed

lemma split_ws_collapse: "split_ws (collapse_ws l) = split_ws l"
  unfolding collapse_ws_def by (rule split_ws_join) (use split_ws_words in blast)

lemma set_join: "set (join sep xs) \<subseteq> \<Union> (set ` set xs) \<union> set sep"
  by (induction xs) (auto simp: join_Cons split: if_splits)

lemma collapse_ws_only_spaces:
  "c \<in> set (collapse_ws l) \<Longrightarrow> is_space c \<Longrightarrow> c = CHR '' ''"
  using set_join[of "'' ''" "split_ws l"] split_ws_words[of _ l]
  by (auto simp: collapse_ws_def)

lemma join_words_ends:
  "\<forall>w \<in> set ws. w \<noteq> [] \<and> (\<forall>c \<in> set w. \<not> is_space c) \<Longrightarrow> ws \<noteq> [] \<Longrightarrow>
   join '' '' ws \<noteq> [] \<and> \<not> is_space (hd (join '' '' ws)) \<and> \<not> is_space (last (join '' '' ws))"
proof (induction ws)
  case Nil
  then show ?case by simp
next
  case (Cons w ws)
  then have w: "w \<noteq> []" "\<forall>c \<in> set w. \<not> is_space c" by auto
  then have hl: "\<not> is_space (hd w)" "\<not> is_space (last w)" by auto
  show ?case
  proof (cases "ws = []")
    case True
    with w hl show ?thesis by simp
  next
    case False
    with Cons have "join '' '' ws \<noteq> [] \<and> \<not> is_space (last (join '' '' ws))" by auto
    with False w hl show ?thesis by (simp add: join_Cons)
  qed
qed

lemma join_words_no_double:
  "\<forall>w \<in> set ws. w \<noteq> [] \<and> (\<forall>c \<in> set w. \<not> is_space c) \<Longrightarrow>
   successively (\<lambda>a b. \<not> (is_space a \<and> is_space b)) (join '' '' ws)"
proof (induction ws)
  case Nil
  then show ?case by simp
next
  case (Cons w ws)
  then have w: "w \<noteq> []" "\<forall>c \<in> set w. \<not> is_space c" by auto
  have sw: "successively (\<lambda>a b. \<not> (is_space a \<and> is_space b)) w"
    using w(2) by (induction w rule: induct_list012) auto
  show ?case
  proof (cases "ws = []")
    case True
    with sw show ?thesis by simp
  next
    case False
    with Cons have e: "join '' '' ws \<noteq> []" "\<not> is_space (hd (join '' '' ws))"
      using join_words_ends[of ws] by auto
    from Cons have s: "successively (\<lambda>a b. \<not> (is_space a \<and> is_space b)) (join '' '' ws)"
      by auto
    have "successively (\<lambda>a b. \<not> (is_space a \<and> is_space b)) (CHR '' '' # join '' '' ws)"
      using e s by (cases "join '' '' ws") auto
    with False w sw show ?thesis
      by (auto simp: join_Cons successively_append_iff)
  qed
qed

lemma collapse_ws_ends:
  "collapse_ws l = [] \<or> (\<not> is_space (hd (collapse_ws l)) \<and> \<not> is_space (last (collapse_ws l)))"
proof (cases "split_ws l = []")
  case True
  then show ?thesis by (simp add: collapse_ws_def)
next
  case False
  then show ?thesis
    unfolding collapse_ws_def
    using join_words_ends[of "split_ws l"] split_ws_words[of _ l] by blast
qed

lemma collapse_ws_no_double:
  "successively (\<lambda>a b. \<not> (is_space a \<and> is_space b)) (collapse_ws l)"
  unfolding collapse_ws_def
  by (rule join_words_no_double) (use split_ws_words in blast)

lemma split_ws_from_replace:
  "\<not> is_space old \<Longrightarrow> new \<noteq> [] \<Longrightarrow> \<forall>c \<in> set new. \<not> is_space c \<Longrightarrow>
   split_ws_from (replace_char old new cur) (replace_char old new s)
     = map (replace_char old new) (split_ws_from cur s)"
proof (induction cur s rule: split_ws_from.induct)
  case (1 cur)
  then show ?case by (simp add: replace_char_Nil replace_char_eq_Nil)
next
  case (2 cur c cs)
  show ?case
  proof (cases "is_space c")
    case True
    with 2 have "c \<noteq> old" by auto
    with True 2 show ?thesis
      by (auto simp: replace_char_Cons replace_char_Nil replace_char_eq_Nil)
  next
    case False
    let ?w = "if c = old then new else [c]"
    have w: "\<forall>c \<in> set ?w. \<not> is_space c" using False 2 by auto
    from False 2 show ?thesis
      using split_ws_from_skip[OF w, of "replace_char old new cur" "replace_char old new cs"]
      by (simp add: replace_char_Cons replace_char_Nil replace_char_append)
  qed
qed

lemma replace_char_join:
  "replace_char old new (join sep xs)
     = join (replace_char old new sep) (map (replace_char old new) xs)"
  by (induction xs) (auto simp: join_Cons replace_char_append replace_char_Nil)

lemma collapse_ws_replace:
  "\<not> is_space old \<Longrightarrow> new \<noteq> [] \<Longrightarrow> \<forall>c \<in> set new. \<not> is_space c \<Longrightarrow>
   collapse_ws (replace_char old new l) = replace_char old new (collapse_ws l)"
proof -
  assume a: "\<not> is_space old" "new \<noteq> []" "\<forall>c \<in> set new. \<not> is_space c"
  then have "old \<noteq> CHR '' ''" using space_is_space by auto
  then have "replace_char old new '' '' = '' ''"
    by (simp add: replace_char_def)
  with a show ?thesis
    using split_ws_from_replace[OF a, of "[]" l]
    by (simp add: collapse_ws_def split_ws_def replace_char_join replace_char_Nil)
qed

lemma blank_replace:
  "\<not> is_space old \<Longrightarrow> new \<noteq> [] \<Longrightarrow> \<forall>c \<in> set new. \<not> is_space c \<Longrightarrow>
   strip (replace_char old new s) = [] \<longleftrightarrow> strip s = []"
  by (auto simp: strip_Nil_iff set_replace_char split: if_splits)

subsection \<open>Escaping commutes with the splits\<close>
lemma split_nlnl_from_no_blank_line:
  "successively (\<lambda>a b. \<not> (a = NL \<and> b = NL)) cur \<Longrightarrow>
   (cur \<noteq> [] \<and> last cur = NL \<longrightarrow> s = [] \<or> hd s \<noteq> NL) \<Longrightarrow>
   p \<in> set (split_nlnl_from cur s) \<Longrightarrow>
   successively (\<lambda>a b. \<not> (a = NL \<and> b = NL)) p"
proof (induction cur s arbitrary: p rule: split_nlnl_from.induct)
  case (1 cur)
  then show ?case by simp
next
  case (2 cur c)
  then show ?case by (auto simp: successively_append_iff)
next
  case (3 cur c d cs)
  show ?case
  proof (cases "c = NL \<and> d = NL")
    case True
    with 3 show ?thesis by auto
  next
    case False
    with "3.prems" have p: "p \<in> set (split_nlnl_from (cur @ [c]) (d # cs))" by auto
    have s: "successively (\<lambda>a b. \<not> (a = NL \<and> b = NL)) (cur @ [c])"
      using "3.prems"(1,2) by (auto simp: successively_append_iff)
    have l: "(cur @ [c]) \<noteq> [] \<and> last (cur @ [c]) = NL \<longrightarrow> d # cs = [] \<or> hd (d # cs) \<noteq> NL"
      using False by auto
    from "3.IH"(2)[OF False s l p] show ?thesis .
  qed
qed

lemma split_nlnl_no_blank_line:
  "p \<in> set (split_nlnl s) \<Longrightarrow> successively (\<lambda>a b. \<not> (a = NL \<and> b = NL)) p"
  unfolding split_nlnl_def by (rule split_nlnl_from_no_blank_line[of "[]" s]) simp_all

lemma join_split_nlnl: "join [NL, NL] (split_nlnl s) = s"
  by (simp add: split_nlnl_def join_split_nlnl_from)

lemma join_split_nl: "join [NL] (split_nl s) = s"
  by (simp add: split_nl_def join_split_nl_from)

lemma split_nl_no_nl: "l \<in> set (split_nl s) \<Longrightarrow> NL \<notin> set l"
  unfolding split_nl_def by (rule split_nl_from_no_nl[of "[]"]) simp_all

lemma lt_facts:
  "\<not> is_space (CHR ''<'')" "\<forall>c \<in> set ''&lt;''. \<not> is_space c" "CHR ''<'' \<noteq> NL" "NL \<notin> set ''&lt;''"
  "\<not> is_space (CHR ''>'')" "\<forall>c \<in> set ''&gt;''. \<not> is_space c" "CHR ''>'' \<noteq> NL" "NL \<notin> set ''&gt;''"
  by (simp_all add: is_space_def)

lemma split_nlnl_escape:
  "split_nlnl (escape_html_entities t) = map escape_html_entities (split_nlnl t)"
proof -
  have 1: "split_nlnl (replace_char (CHR ''<'') ''&lt;'' u) = map (replace_char (CHR ''<'') ''&lt;'') (split_nlnl u)" for u
    using split_nlnl_from_replace[of "CHR ''<''" "''&lt;''" "[]" u]
    by (simp add: split_nlnl_def replace_char_Nil)
  have 2: "split_nlnl (replace_char (CHR ''>'') ''&gt;'' u) = map (replace_char (CHR ''>'') ''&gt;'') (split_nlnl u)" for u
    using split_nlnl_from_replace[of "CHR ''>''" "''&gt;''" "[]" u]
    by (simp add: split_nlnl_def replace_char_Nil)
  show ?thesis
    by (simp add: escape_html_entities_def[abs_def] 1 2 comp_def)
qed

lemma split_nl_escape:
  "split_nl (escape_html_entities t) = map escape_html_entities (split_nl t)"
proof -
  have 1: "split_nl (replace_char (CHR ''<'') ''&lt;'' u) = map (replace_char (CHR ''<'') ''&lt;'') (split_nl u)" for u
    using split_nl_from_replace[of "CHR ''<''" "''&lt;''" "[]" u]
    by (simp add: split_nl_def replace_char_Nil)
  have 2: "split_nl (replace_char (CHR ''>'') ''&gt;'' u) = map (replace_char (CHR ''>'') ''&gt;'') (split_nl u)" for u
    using split_nl_from_replace[of "CHR ''>''" "''&gt;''" "[]" u]
    by (simp add: split_nl_def replace_char_Nil)
  show ?thesis
    by (simp add: escape_html_entities_def[abs_def] 1 2 comp_def)
qed

lemma collapse_ws_escape:
  "collapse_ws (escape_html_entities l) = escape_html_entities (collapse_ws l)"
  using collapse_ws_replace[of "CHR ''<''" "''&lt;''"] collapse_ws_replace[of "CHR ''>''" "''&gt;''"]
  by (simp add: escape_html_entities_def lt_facts)

lemma strip_escape: "strip (escape_html_entities s) = [] \<longleftrightarrow> strip s = []"
  using blank_replace[of "CHR ''<''" "''&lt;''"] blank_replace[of "CHR ''>''" "''&gt;''"]
  by (simp add: escape_html_entities_def lt_facts)

lemma escape_no_angle:
  "CHR ''<'' \<notin> set (escape_html_entities t) \<and> CHR ''>'' \<notin> set (escape_html_entities t)"
  by (simp add: escape_html_entities_def set_replace_char)

lemma escape_id:
  "CHR ''<'' \<notin> set t \<Longrightarrow> CHR ''>'' \<notin> set t \<Longrightarrow> escape_html_entities t = t"
  by (simp add: escape_html_entities_def replace_char_id)

lemma cleaned_para_escape:
  "cleaned_para (escape_html_entities p) =
     join ''<br/>'' (map (\<lambda>l. escape_html_entities (collapse_ws l))
       (filter (\<lambda>l. strip l \<noteq> []) (split_nl p)))"
  by (simp add: cleaned_para_def strip_escape split_nl_escape filter_map comp_def
      collapse_ws_escape Let_def)

text \<open>
  The loop builds the story when the parser accepts the markup of every paragraph that
  is not blank, and raises otherwise.
\<close>

lemma story_loop_result:
  "story_loop parses story paras =
     (if list_all parses (map cleaned_para (filter (\<lambda>p. strip p \<noteq> []) paras))
      then Inr (story @ concat (map (\<lambda>p. [Paragraph (cleaned_para p), Spacer])
                   (filter (\<lambda>p. strip p \<noteq> []) paras)))
      else Inl ValueError)"
  by (induction paras arbitrary: story) (simp_all add: new_paragraph_def)

text \<open>
  What the re-render does: one paragraph, followed by the spacer, for each piece of the
  text between blank-line breaks that is not blank; its markup is made of the lines of
  the piece that are not blank, each with its whitespace collapsed and its angle brackets
  escaped, joined by line-break tags. The story is built when the parser accepts every
  markup.
\<close>

lemma create_masked_pdf_story:
  "create_masked_pdf parses t =
     (let markups =
            map (\<lambda>p. join ''<br/>'' (map (\<lambda>l. escape_html_entities (collapse_ws l))
                         (filter (\<lambda>l. strip l \<noteq> []) (split_nl p))))
              (filter (\<lambda>p. strip p \<noteq> []) (split_nlnl t))
      in if list_all parses markups
         then Inr (concat (map (\<lambda>m. [Paragraph m, Spacer]) markups))
         else Inl ValueError)"
proof -
  have f: "filter (\<lambda>p. strip p \<noteq> []) (map escape_html_entities ps)
      = map escape_html_entities (filter (\<lambda>p. strip p \<noteq> []) ps)" for ps
    by (induction ps) (simp_all add: strip_escape)
  show ?thesis
    by (simp add: create_masked_pdf_def story_loop_result split_nlnl_escape f comp_def
        cleaned_para_escape Let_def)
qed

text \<open>
  C5. The re-render escapes the two angle brackets and nothing else: an ampersand reaches
  the markup as it is. So the text of an escaped tag and the text of the tag get the same
  markup, and the text "a &# b" reaches reportlab's parser unchanged: the story is built
  only if the parser accepts it, and with a parser that rejects the start of a character
  reference followed by a space the constructor raises and no story is built.
\<close>

theorem create_masked_pdf_ampersand:
  "escape_html_entities ''&'' = ''&''
   \<and> create_masked_pdf parses ''&lt;b&gt;'' = create_masked_pdf parses ''<b>''
   \<and> create_masked_pdf parses ''a &# b''
       = (if parses ''a &# b'' then Inr [Paragraph ''a &# b'', Spacer] else Inl ValueError)
   \<and> create_masked_pdf rejects_bare_reference ''a &# b'' = Inl ValueError"
proof (intro conjI)
  show "escape_html_entities ''&'' = ''&''"
    by (simp add: escape_html_entities_def replace_char_def)
next
  have "escape_html_entities ''&lt;b&gt;'' = escape_html_entities ''<b>''"
    by (simp add: escape_html_entities_def replace_char_def)
  then show "create_masked_pdf parses ''&lt;b&gt;'' = create_masked_pdf parses ''<b>''"
    by (simp add: create_masked_pdf_def)
next
  have m: "split_nlnl (escape_html_entities ''a &# b'') = [''a &# b'']"
      "strip ''a &# b'' \<noteq> []" "cleaned_para ''a &# b'' = ''a &# b''"
    by code_simp+
  then have g: "create_masked_pdf q ''a &# b''
       = (if q ''a &# b'' then Inr [Paragraph ''a &# b'', Spacer] else Inl ValueError)" for q
    by (simp add: create_masked_pdf_def new_paragraph_def)
  from g show "create_masked_pdf parses ''a &# b''
       = (if parses ''a &# b'' then Inr [Paragraph ''a &# b'', Spacer] else Inl ValueError)" .
  have "\<not> rejects_bare_reference ''a &# b''"
    by code_simp
  with g[of rejects_bare_reference]
  show "create_masked_pdf rejects_bare_reference ''a &# b'' = Inl ValueError"
    by simp
qed

section \<open>The CSV redaction\<close>

lemma anonymize_at_redact:
  "idx < length rows \<Longrightarrow> j < length (rows ! idx) \<Longrightarrow>
   anonymize_at analyzer anonymizer threshold entities rows idx j =
     (case redact_cell analyzer anonymizer threshold entities (rows ! idx ! j) of
        Inl e \<Rightarrow> Inl e
      | Inr c \<Rightarrow> Inr (rows[idx := (rows ! idx)[j := c]]))"
proof -
  assume "idx < length rows" "j < length (rows ! idx)"
  have keep: "rows[idx := (rows ! idx)[j := rows ! idx ! j]] = rows"
    by simp
  show ?thesis
  proof (cases "rows ! idx ! j")
    case Missing
    then show ?thesis
      using keep by (simp add: anonymize_at_def redact_cell_def)
  next
    case (Val v)
    then show ?thesis
      using keep by (simp add: anonymize_at_def redact_cell_def split: sum.splits)
  qed
qed

lemma update_shape: "map length (rows[idx := (rows ! idx)[j := c]]) = map length rows"
proof (cases "idx < length rows")
  case True
  then show ?thesis by (simp add: map_update list_update_same_conv)
next
  case False
  then have "rows[idx := (rows ! idx)[j := c]] = rows"
    by (intro list_update_beyond) simp
  then show ?thesis by simp
qed

lemma anonymize_at_shape:
  "anonymize_at analyzer anonymizer threshold entities rows idx j = Inr rows' \<Longrightarrow>
   map length rows' = map length rows"
  by (auto simp: anonymize_at_def update_shape split: cell.splits sum.splits if_splits)

lemma anonymize_index_loop_shape:
  "anonymize_index_loop analyzer anonymizer threshold entities j rows idxs = Inr rows' \<Longrightarrow>
   map length rows' = map length rows"
proof (induction idxs arbitrary: rows)
  case Nil
  then show ?case by simp
next
  case (Cons idx rest)
  then obtain rows1 where
    1: "anonymize_at analyzer anonymizer threshold entities rows idx j = Inr rows1" and
    2: "anonymize_index_loop analyzer anonymizer threshold entities j rows1 rest = Inr rows'"
    by (auto split: sum.splits)
  from Cons.IH[OF 2] anonymize_at_shape[OF 1] show ?case by simp
qed

lemma anonymize_column_loop_shape:
  "anonymize_column_loop analyzer anonymizer threshold entities rows js = Inr rows' \<Longrightarrow>
   map length rows' = map length rows"
proof (induction js arbitrary: rows)
  case Nil
  then show ?case by simp
next
  case (Cons j rest)
  then obtain rows1 where
    1: "anonymize_index_loop analyzer anonymizer threshold entities j rows [0..<length rows] = Inr rows1" and
    2: "anonymize_column_loop analyzer anonymizer threshold entities rows1 rest = Inr rows'"
    by (auto split: sum.splits)
  from Cons.IH[OF 2] anonymize_index_loop_shape[OF 1] show ?case by simp
qed

lemma anonymize_at_done:
  assumes "idx < length rows" "j < length (rows ! idx)"
    and "anonymize_at analyzer anonymizer threshold entities rows idx j = Inr rows1"
  shows "column_done analyzer anonymizer threshold entities j {idx} rows rows1"
proof -
  from assms obtain c where
    c: "redact_cell analyzer anonymizer threshold entities (rows ! idx ! j) = Inr c" and
    r: "rows1 = rows[idx := (rows ! idx)[j := c]]"
    by (auto simp: anonymize_at_redact split: sum.splits)
  have "map length rows1 = map length rows"
    using r by (simp add: update_shape)
  moreover have "rows1 ! i = rows ! i" if "i \<noteq> idx" for i
    using r that by simp
  moreover have "rows1 ! idx ! j = c"
    using r assms(1,2) by simp
  moreover have "rows1 ! idx ! k = rows ! idx ! k" if "k \<noteq> j" for k
    using r assms(1) that by simp
  ultimately show ?thesis
    unfolding column_done_def using c by (metis singletonD singletonI)
qed

lemma column_done_compose:
  assumes 1: "column_done analyzer anonymizer threshold entities j D1 rows rows1"
    and 2: "column_done analyzer anonymizer threshold entities j D2 rows1 rows2"
    and d: "D1 \<inter> D2 = {}"
  shows "column_done analyzer anonymizer threshold entities j (D1 \<union> D2) rows rows2"
proof -
  from 1 2 have len: "map length rows1 = map length rows" "map length rows2 = map length rows1"
    by (simp_all add: column_done_def)
  then have l: "length rows1 = length rows"
    by (metis length_map)
  have "(i \<in> D1 \<union> D2 \<longrightarrow>
            redact_cell analyzer anonymizer threshold entities (rows ! i ! j) = Inr (rows2 ! i ! j))
         \<and> (i \<notin> D1 \<union> D2 \<longrightarrow> rows2 ! i = rows ! i)
         \<and> (\<forall>k. k \<noteq> j \<longrightarrow> rows2 ! i ! k = rows ! i ! k)" if i: "i < length rows" for i
  proof -
    from 1 i have a:
      "i \<in> D1 \<longrightarrow> redact_cell analyzer anonymizer threshold entities (rows ! i ! j) = Inr (rows1 ! i ! j)"
      "i \<notin> D1 \<longrightarrow> rows1 ! i = rows ! i"
      "\<forall>k. k \<noteq> j \<longrightarrow> rows1 ! i ! k = rows ! i ! k"
      by (simp_all add: column_done_def)
    from 2 i l have b:
      "i \<in> D2 \<longrightarrow> redact_cell analyzer anonymizer threshold entities (rows1 ! i ! j) = Inr (rows2 ! i ! j)"
      "i \<notin> D2 \<longrightarrow> rows2 ! i = rows1 ! i"
      "\<forall>k. k \<noteq> j \<longrightarrow> rows2 ! i ! k = rows1 ! i ! k"
      by (simp_all add: column_done_def)
    from d have "i \<in> D1 \<Longrightarrow> i \<notin> D2" "i \<in> D2 \<Longrightarrow> i \<notin> D1"
      by auto
    with a b show ?thesis
      by (metis Un_iff)
  qed
  with len show ?thesis
    by (simp add: column_done_def)
qed

lemma column_done_empty:
  "column_done analyzer anonymizer threshold entities j {} rows rows"
  by (simp add: column_done_def)

lemma anonymize_index_loop_done:
  "distinct idxs \<Longrightarrow> \<forall>i \<in> set idxs. i < length rows \<Longrightarrow> \<forall>r \<in> set rows. j < length r \<Longrightarrow>
   anonymize_index_loop analyzer anonymizer threshold entities j rows idxs = Inr rows' \<Longrightarrow>
   column_done analyzer anonymizer threshold entities j (set idxs) rows rows'"
proof (induction idxs arbitrary: rows)
  case Nil
  then show ?case by (simp add: column_done_empty)
next
  case (Cons idx rest)
  from Cons.prems(4) obtain rows1 where
    1: "anonymize_at analyzer anonymizer threshold entities rows idx j = Inr rows1" and
    2: "anonymize_index_loop analyzer anonymizer threshold entities j rows1 rest = Inr rows'"
    by (auto split: sum.splits)
  from Cons.prems have idx: "idx < length rows" "j < length (rows ! idx)"
    by auto
  have s: "map length rows1 = map length rows"
    using 1 by (rule anonymize_at_shape)
  then have l: "length rows1 = length rows"
    by (metis length_map)
  have b: "\<forall>i \<in> set rest. i < length rows1"
    using Cons.prems(2) l by simp
  have w: "\<forall>r \<in> set rows1. j < length r"
  proof
    fix r assume "r \<in> set rows1"
    then obtain i where i: "i < length rows1" "r = rows1 ! i"
      by (auto simp: in_set_conv_nth)
    then have "length r = length (rows ! i)"
      using s l by (metis nth_map)
    moreover have "rows ! i \<in> set rows"
      using i l by simp
    ultimately show "j < length r"
      using Cons.prems(3) by simp
  qed
  have d1: "column_done analyzer anonymizer threshold entities j {idx} rows rows1"
    using idx 1 by (rule anonymize_at_done)
  have d2: "column_done analyzer anonymizer threshold entities j (set rest) rows1 rows'"
    using Cons.prems(1) b w 2 by (intro Cons.IH) simp_all
  have "{idx} \<inter> set rest = {}"
    using Cons.prems(1) by simp
  with d1 d2 have "column_done analyzer anonymizer threshold entities j ({idx} \<union> set rest) rows rows'"
    by (rule column_done_compose)
  then show ?case by simp
qed

lemma column_done_all:
  "column_done analyzer anonymizer threshold entities j {0..<length rows} rows rows1 \<Longrightarrow>
   columns_done analyzer anonymizer threshold entities {j} rows rows1"
  by (simp add: column_done_def columns_done_def)

lemma columns_done_compose:
  assumes 1: "columns_done analyzer anonymizer threshold entities D1 rows rows1"
    and 2: "columns_done analyzer anonymizer threshold entities D2 rows1 rows2"
    and d: "D1 \<inter> D2 = {}"
  shows "columns_done analyzer anonymizer threshold entities (D1 \<union> D2) rows rows2"
proof -
  from 1 2 have len: "map length rows1 = map length rows" "map length rows2 = map length rows1"
    by (simp_all add: columns_done_def)
  then have l: "length rows1 = length rows"
    by (metis length_map)
  have "(k \<in> D1 \<union> D2 \<longrightarrow>
            redact_cell analyzer anonymizer threshold entities (rows ! i ! k) = Inr (rows2 ! i ! k))
         \<and> (k \<notin> D1 \<union> D2 \<longrightarrow> rows2 ! i ! k = rows ! i ! k)" if i: "i < length rows" for i k
  proof -
    from 1 i have a:
      "k \<in> D1 \<longrightarrow> redact_cell analyzer anonymizer threshold entities (rows ! i ! k) = Inr (rows1 ! i ! k)"
      "k \<notin> D1 \<longrightarrow> rows1 ! i ! k = rows ! i ! k"
      by (simp_all add: columns_done_def)
    from 2 i l have b:
      "k \<in> D2 \<longrightarrow> redact_cell analyzer anonymizer threshold entities (rows1 ! i ! k) = Inr (rows2 ! i ! k)"
      "k \<notin> D2 \<longrightarrow> rows2 ! i ! k = rows1 ! i ! k"
      by (simp_all add: columns_done_def)
    from d have "k \<in> D1 \<Longrightarrow> k \<notin> D2" "k \<in> D2 \<Longrightarrow> k \<notin> D1"
      by auto
    with a b show ?thesis
      by (metis Un_iff)
  qed
  with len show ?thesis
    by (simp add: columns_done_def)
qed

lemma anonymize_column_loop_done:
  "distinct js \<Longrightarrow> \<forall>r \<in> set rows. \<forall>j \<in> set js. j < length r \<Longrightarrow>
   anonymize_column_loop analyzer anonymizer threshold entities rows js = Inr rows' \<Longrightarrow>
   columns_done analyzer anonymizer threshold entities (set js) rows rows'"
proof (induction js arbitrary: rows)
  case Nil
  then show ?case by (simp add: columns_done_def)
next
  case (Cons j rest)
  from Cons.prems(3) obtain rows1 where
    1: "anonymize_index_loop analyzer anonymizer threshold entities j rows [0..<length rows] = Inr rows1" and
    2: "anonymize_column_loop analyzer anonymizer threshold entities rows1 rest = Inr rows'"
    by (auto split: sum.splits)
  have s: "map length rows1 = map length rows"
    using 1 by (rule anonymize_index_loop_shape)
  then have l: "length rows1 = length rows"
    by (metis length_map)
  have w: "\<forall>r \<in> set rows1. \<forall>j \<in> set rest. j < length r"
  proof
    fix r assume "r \<in> set rows1"
    then obtain i where i: "i < length rows1" "r = rows1 ! i"
      by (auto simp: in_set_conv_nth)
    then have "length r = length (rows ! i)"
      using s l by (metis nth_map)
    moreover have "rows ! i \<in> set rows"
      using i l by simp
    ultimately show "\<forall>j \<in> set rest. j < length r"
      using Cons.prems(2) by simp
  qed
  have "column_done analyzer anonymizer threshold entities j (set [0..<length rows]) rows rows1"
    using 1 Cons.prems(2) by (intro anonymize_index_loop_done) simp_all
  then have d1: "columns_done analyzer anonymizer threshold entities {j} rows rows1"
    by (simp add: column_done_all)
  have d2: "columns_done analyzer anonymizer threshold entities (set rest) rows1 rows'"
    using Cons.prems(1) w 2 by (intro Cons.IH) simp_all
  have "{j} \<inter> set rest = {}"
    using Cons.prems(1) by simp
  with d1 d2 have "columns_done analyzer anonymizer threshold entities ({j} \<union> set rest) rows rows'"
    by (rule columns_done_compose)
  then show ?case by simp
qed

lemma anonymize_dataframe_cells:
  assumes r: "rectangular df"
    and a: "anonymize_dataframe analyzer anonymizer df threshold entities = Inr df'"
  shows "df_columns df' = df_columns df"
    and "map length (df_rows df') = map length (df_rows df)"
    and "i < length (df_rows df) \<Longrightarrow> j < length (df_columns df) \<Longrightarrow>
         redact_cell analyzer anonymizer threshold entities (df_rows df ! i ! j)
           = Inr (df_rows df' ! i ! j)"
proof -
  from a obtain rows' where
    l: "anonymize_column_loop analyzer anonymizer threshold entities (df_rows df)
          [0..<length (df_columns df)] = Inr rows'" and
    d: "df' = df\<lparr>df_rows := rows'\<rparr>"
    by (auto simp: anonymize_dataframe_def split: sum.splits)
  from d show "df_columns df' = df_columns df" by simp
  from r have w: "\<forall>r \<in> set (df_rows df). \<forall>j \<in> set [0..<length (df_columns df)]. j < length r"
    by (simp add: rectangular_def list_all_iff)
  have c: "columns_done analyzer anonymizer threshold entities
      (set [0..<length (df_columns df)]) (df_rows df) rows'"
    using w l by (intro anonymize_column_loop_done) simp_all
  then show "map length (df_rows df') = map length (df_rows df)"
    using d by (simp add: columns_done_def)
  show "redact_cell analyzer anonymizer threshold entities (df_rows df ! i ! j)
           = Inr (df_rows df' ! i ! j)"
    if "i < length (df_rows df)" "j < length (df_columns df)"
    using c d that by (simp add: columns_done_def)
qed

lemma anonymize_dataframe_shape:
  "anonymize_dataframe analyzer anonymizer df threshold entities = Inr df' \<Longrightarrow>
   df_columns df' = df_columns df \<and> map length (df_rows df') = map length (df_rows df)"
  by (auto simp: anonymize_dataframe_def anonymize_column_loop_shape split: sum.splits)

lemma analyze_csv_written:
  "analyze_csv analyzer anonymizer smp g csv_path df anonymize output_path sample_size
       threshold entities = Inr (res, Some written) \<Longrightarrow>
   anonymize_dataframe analyzer anonymizer df threshold entities = Inr written"
  by (auto simp: analyze_csv_def Let_def split: sum.splits if_splits option.splits)

text \<open>
  C8. Whenever the redaction returns a frame, and whenever \<open>analyze_csv\<close> writes one, it
  has the column labels of the input in the same order, as many rows as the input, and
  in each row as many cells as the input row.
\<close>

theorem csv_redaction_preserves_shape:
  "(anonymize_dataframe analyzer anonymizer df threshold entities = Inr out \<longrightarrow>
      df_columns out = df_columns df
      \<and> length (df_rows out) = length (df_rows df)
      \<and> map length (df_rows out) = map length (df_rows df))
   \<and> (analyze_csv analyzer anonymizer smp g csv_path df anonymize output_path sample_size
         threshold entities = Inr (res, Some written) \<longrightarrow>
      df_columns written = df_columns df
      \<and> length (df_rows written) = length (df_rows df)
      \<and> map length (df_rows written) = map length (df_rows df))"
proof -
  have shape: "df_columns d = df_columns df
      \<and> length (df_rows d) = length (df_rows df)
      \<and> map length (df_rows d) = map length (df_rows df)"
    if "anonymize_dataframe analyzer anonymizer df threshold entities = Inr d" for d
  proof -
    from that have s: "df_columns d = df_columns df"
        "map length (df_rows d) = map length (df_rows df)"
      by (simp_all add: anonymize_dataframe_shape)
    from s(2) have "length (df_rows d) = length (df_rows df)"
      by (metis length_map)
    with s show ?thesis by simp
  qed
  show ?thesis
  proof (rule conjI; rule impI)
    assume "anonymize_dataframe analyzer anonymizer df threshold entities = Inr out"
    then show "df_columns out = df_columns df
      \<and> length (df_rows out) = length (df_rows df)
      \<and> map length (df_rows out) = map length (df_rows df)"
      by (rule shape)
  next
    assume "analyze_csv analyzer anonymizer smp g csv_path df anonymize output_path
        sample_size threshold entities = Inr (res, Some written)"
    then have "anonymize_dataframe analyzer anonymizer df threshold entities = Inr written"
      by (rule analyze_csv_written)
    then show "df_columns written = df_columns df
      \<and> length (df_rows written) = length (df_rows df)
      \<and> map length (df_rows written) = map length (df_rows df)"
      by (rule shape)
  qed
qed

theorem csv_redaction_preserves_shape_witness:
  "map_sum id snd
     (analyze_csv demo_analyzer demo_anonymizer demo_sampler [] ''in.csv'' demo_frame True
        (Some ''out.csv'') (Some 2) 0.35 None)
   = Inr (Some \<lparr>df_columns = [''name'', ''email'', ''phone''],
                 df_rows = [[Val ''Ann'', Val ''<EMAIL_ADDRESS>'', Missing],
                            [Val ''Bob'', Val ''<EMAIL_ADDRESS>'', Val ''none''],
                            [Val ''Cy'', Val ''<EMAIL_ADDRESS>'', Missing]]\<rparr>)
   \<and> df_columns \<lparr>df_columns = [''name'', ''email'', ''phone''],
                 df_rows = [[Val ''Ann'', Val ''<EMAIL_ADDRESS>'', Missing],
                            [Val ''Bob'', Val ''<EMAIL_ADDRESS>'', Val ''none''],
                            [Val ''Cy'', Val ''<EMAIL_ADDRESS>'', Missing]]\<rparr>
       = df_columns demo_frame
   \<and> map length (df_rows \<lparr>df_columns = [''name'', ''email'', ''phone''],
                 df_rows = [[Val ''Ann'', Val ''<EMAIL_ADDRESS>'', Missing],
                            [Val ''Bob'', Val ''<EMAIL_ADDRESS>'', Val ''none''],
                            [Val ''Cy'', Val ''<EMAIL_ADDRESS>'', Missing]]\<rparr>)
       = map length (df_rows demo_frame)"
proof -
  let ?w = "\<lparr>df_columns = [''name'', ''email'', ''phone''],
                 df_rows = [[Val ''Ann'', Val ''<EMAIL_ADDRESS>'', Missing],
                            [Val ''Bob'', Val ''<EMAIL_ADDRESS>'', Val ''none''],
                            [Val ''Cy'', Val ''<EMAIL_ADDRESS>'', Missing]]\<rparr>"
  let ?run = "analyze_csv demo_analyzer demo_anonymizer demo_sampler []
        ''in.csv'' demo_frame True (Some ''out.csv'') (Some 2) 0.35 None"
  have run: "map_sum id snd ?run = Inr (Some ?w)"
    by code_simp
  then obtain res where r: "?run = Inr (res, Some ?w)"
    by (cases ?run) auto
  have "?run = Inr (res, Some ?w) \<longrightarrow>
      df_columns ?w = df_columns demo_frame
      \<and> length (df_rows ?w) = length (df_rows demo_frame)
      \<and> map length (df_rows ?w) = map length (df_rows demo_frame)"
    using csv_redaction_preserves_shape [of demo_analyzer demo_anonymizer demo_frame "0.35"
      None ?w demo_sampler "[]" "''in.csv''" True "Some ''out.csv''" "Some 2" res ?w]
    by (rule conjunct2)
  then have c: "df_columns ?w = df_columns demo_frame
      \<and> length (df_rows ?w) = length (df_rows demo_frame)
      \<and> map length (df_rows ?w) = map length (df_rows demo_frame)"
    using r by (rule mp)
  from c have c1: "df_columns ?w = df_columns demo_frame"
    by (rule conjunct1)
  from c have c3: "map length (df_rows ?w) = map length (df_rows demo_frame)"
    by (rule conjunct2[THEN conjunct2])
  from run c1 c3 show ?thesis
    by (intro conjI)
qed

text \<open>
  C2 (as amended). The redaction does not look at the sample: for every rectangular input
  table and every sample size, each cell of each row of the written frame, whether the row
  was among the rows analyzed or not, is what the loop body makes of the input cell. A
  missing cell and a cell for which detection returns no finding are identical to the
  input cell; a cell for which detection returns findings holds the anonymizer's text.
\<close>

theorem csv_redaction_scans_every_row:
  assumes "rectangular df"
    and "analyze_csv analyzer anonymizer smp g csv_path df anonymize output_path sample_size
           threshold entities = Inr (res, Some written)"
    and "i < length (df_rows df)" and "j < length (df_columns df)"
  shows "redact_cell analyzer anonymizer threshold entities (df_rows df ! i ! j)
           = Inr (df_rows written ! i ! j)
     \<and> (df_rows df ! i ! j = Missing \<longrightarrow> df_rows written ! i ! j = Missing)
     \<and> (\<forall>v. df_rows df ! i ! j = Val v
            \<and> fst (csv_analyze_text analyzer v ''en'' threshold entities) = Inr []
          \<longrightarrow> df_rows written ! i ! j = Val v)
     \<and> (\<forall>v fs. df_rows df ! i ! j = Val v
            \<and> fst (csv_analyze_text analyzer v ''en'' threshold entities) = Inr fs
            \<and> fs \<noteq> []
          \<longrightarrow> anonymizer v (map to_recognizer_result fs) = Inr a
          \<longrightarrow> df_rows written ! i ! j = Val a)"
proof -
  from assms(2) have "anonymize_dataframe analyzer anonymizer df threshold entities = Inr written"
    by (rule analyze_csv_written)
  with assms(1) have c: "redact_cell analyzer anonymizer threshold entities (df_rows df ! i ! j)
           = Inr (df_rows written ! i ! j)"
    using assms(3,4) by (rule anonymize_dataframe_cells(3))
  have m: "df_rows written ! i ! j = Missing" if "df_rows df ! i ! j = Missing"
    using c that by (simp add: redact_cell_def)
  have n: "df_rows written ! i ! j = Val v"
    if "df_rows df ! i ! j = Val v"
      "fst (csv_analyze_text analyzer v ''en'' threshold entities) = Inr []" for v
    using c that by (simp add: redact_cell_def)
  have f: "df_rows written ! i ! j = Val a"
    if "df_rows df ! i ! j = Val v"
      "fst (csv_analyze_text analyzer v ''en'' threshold entities) = Inr fs" "fs \<noteq> []"
      "anonymizer v (map to_recognizer_result fs) = Inr a" for v fs
    using c that by (simp add: redact_cell_def)
  from c m n f show ?thesis
    by blast
qed

theorem csv_redaction_scans_every_row_witness:
  "rectangular demo_frame
   \<and> map_sum id snd
       (analyze_csv demo_analyzer demo_anonymizer demo_sampler [] ''in.csv'' demo_frame True
          (Some ''out.csv'') (Some 2) 0.35 None)
     = Inr (Some \<lparr>df_columns = [''name'', ''email'', ''phone''],
                   df_rows = [[Val ''Ann'', Val ''<EMAIL_ADDRESS>'', Missing],
                              [Val ''Bob'', Val ''<EMAIL_ADDRESS>'', Val ''none''],
                              [Val ''Cy'', Val ''<EMAIL_ADDRESS>'', Missing]]\<rparr>)
   \<and> redact_cell demo_analyzer demo_anonymizer 0.35 None (df_rows demo_frame ! 2 ! 1)
     = Inr (df_rows \<lparr>df_columns = [''name'', ''email'', ''phone''],
                   df_rows = [[Val ''Ann'', Val ''<EMAIL_ADDRESS>'', Missing],
                              [Val ''Bob'', Val ''<EMAIL_ADDRESS>'', Val ''none''],
                              [Val ''Cy'', Val ''<EMAIL_ADDRESS>'', Missing]]\<rparr> ! 2 ! 1)"
proof -
  let ?w = "\<lparr>df_columns = [''name'', ''email'', ''phone''],
                 df_rows = [[Val ''Ann'', Val ''<EMAIL_ADDRESS>'', Missing],
                            [Val ''Bob'', Val ''<EMAIL_ADDRESS>'', Val ''none''],
                            [Val ''Cy'', Val ''<EMAIL_ADDRESS>'', Missing]]\<rparr>"
  let ?run = "analyze_csv demo_analyzer demo_anonymizer demo_sampler []
        ''in.csv'' demo_frame True (Some ''out.csv'') (Some 2) 0.35 None"
  have rect: "rectangular demo_frame"
    by code_simp
  have run: "map_sum id snd ?run = Inr (Some ?w)"
    by code_simp
  then obtain res where r: "?run = Inr (res, Some ?w)"
    by (cases ?run) auto
  have i: "2 < length (df_rows demo_frame)" and j: "1 < length (df_columns demo_frame)"
    by (simp_all add: demo_frame_def)
  have "redact_cell demo_analyzer demo_anonymizer 0.35 None (df_rows demo_frame ! 2 ! 1)
     = Inr (df_rows ?w ! 2 ! 1)"
    using csv_redaction_scans_every_row [OF rect r i j, of "''<EMAIL_ADDRESS>''"]
    by (rule conjunct1)
  with rect run show ?thesis
    by (intro conjI)
qed

text \<open>
  C2 as the specification states it fails: with three rows and a sample size of two, the
  rows analyzed are the rows 0 and 1, yet the e-mail address of row 2 is replaced in the
  written frame, as those of the rows 0 and 1 are.
\<close>

theorem csv_redaction_mutates_unsampled_row:
  "map_sum id snd
     (analyze_csv demo_analyzer demo_anonymizer demo_sampler [] ''in.csv'' demo_frame True
        (Some ''out.csv'') (Some 2) 0.35 None)
   = Inr (Some \<lparr>df_columns = [''name'', ''email'', ''phone''],
                 df_rows = [[Val ''Ann'', Val ''<EMAIL_ADDRESS>'', Missing],
                            [Val ''Bob'', Val ''<EMAIL_ADDRESS>'', Val ''none''],
                            [Val ''Cy'', Val ''<EMAIL_ADDRESS>'', Missing]]\<rparr>)
   \<and> df_to_analyze demo_sampler [] demo_frame (Some 2)
       = Inr ([(0, [Val ''Ann'', Val ''ann@x.org'', Missing]),
               (1, [Val ''Bob'', Val ''bob@x.org'', Val ''none''])], True)
   \<and> \<not> unsampled_rows_identical
         [(0, [Val ''Ann'', Val ''ann@x.org'', Missing]),
          (1, [Val ''Bob'', Val ''bob@x.org'', Val ''none''])]
         demo_frame
         \<lparr>df_columns = [''name'', ''email'', ''phone''],
          df_rows = [[Val ''Ann'', Val ''<EMAIL_ADDRESS>'', Missing],
                     [Val ''Bob'', Val ''<EMAIL_ADDRESS>'', Val ''none''],
                     [Val ''Cy'', Val ''<EMAIL_ADDRESS>'', Missing]]\<rparr>"
  by code_simp

section \<open>The sampling step\<close>

lemma df_to_analyze_seeded:
  "seeded smp \<Longrightarrow> df_to_analyze smp g df sample_size = df_to_analyze smp g' df sample_size"
proof -
  assume "seeded smp"
  then have "smp g df n (Some 42) = smp g' df n (Some 42)" for n
    unfolding seeded_def by blast
  then show ?thesis
    by (simp add: df_to_analyze_def split: option.splits)
qed

lemma demo_sampler_seeded: "seeded demo_sampler"
  by (simp add: seeded_def demo_sampler_def)

text \<open>
  C6. The rows to analyze are a sample only when the sample size is given, is not zero
  and is strictly below the row count, and the sample is the one pandas draws for the
  seed 42. Otherwise all rows are analyzed. As pandas draws a seeded sample from a
  generator of its own, two runs on the same table with the same sample size select the
  same rows, whatever the state of the process-wide generator, and the analysis is the
  same.
\<close>

theorem sampling_fixed_seed:
  "(df_to_analyze smp g df sample_size = Inr (rs, True) \<longrightarrow>
      (\<exists>n positions. sample_size = Some n \<and> n \<noteq> 0 \<and> n < int (length (df_rows df))
         \<and> smp g df n (Some 42) = Inr positions
         \<and> rs = map (\<lambda>i. (i, df_rows df ! i)) positions))
   \<and> (df_to_analyze smp g df sample_size = Inr (rs, False) \<longrightarrow>
        rs = enumerate 0 (df_rows df))
   \<and> (seeded smp \<longrightarrow>
        df_to_analyze smp g df sample_size = df_to_analyze smp g' df sample_size
        \<and> analyze_dataframe analyzer smp g df sample_size threshold entities
            = analyze_dataframe analyzer smp g' df sample_size threshold entities)"
proof (intro conjI impI)
  assume "df_to_analyze smp g df sample_size = Inr (rs, True)"
  then show "\<exists>n positions. sample_size = Some n \<and> n \<noteq> 0 \<and> n < int (length (df_rows df))
         \<and> smp g df n (Some 42) = Inr positions
         \<and> rs = map (\<lambda>i. (i, df_rows df ! i)) positions"
    by (auto simp: df_to_analyze_def split: option.splits if_splits sum.splits)
next
  assume "df_to_analyze smp g df sample_size = Inr (rs, False)"
  then show "rs = enumerate 0 (df_rows df)"
    by (auto simp: df_to_analyze_def split: option.splits if_splits sum.splits)
next
  assume "seeded smp"
  then show "df_to_analyze smp g df sample_size = df_to_analyze smp g' df sample_size"
    by (rule df_to_analyze_seeded)
next
  assume "seeded smp"
  then have "df_to_analyze smp g df sample_size = df_to_analyze smp g' df sample_size"
    by (rule df_to_analyze_seeded)
  then show "analyze_dataframe analyzer smp g df sample_size threshold entities
            = analyze_dataframe analyzer smp g' df sample_size threshold entities"
    by (simp add: analyze_dataframe_def)
qed

theorem sampling_fixed_seed_witness:
  "seeded demo_sampler
   \<and> df_to_analyze demo_sampler [2, 0] demo_frame (Some 2)
     = Inr ([(0, [Val ''Ann'', Val ''ann@x.org'', Missing]),
             (1, [Val ''Bob'', Val ''bob@x.org'', Val ''none''])], True)
   \<and> df_to_analyze demo_sampler [2, 0] demo_frame (Some 2)
     = df_to_analyze demo_sampler [1, 2] demo_frame (Some 2)
   \<and> df_to_analyze demo_sampler [2, 0] demo_frame (Some 3)
     = Inr (enumerate 0 (df_rows demo_frame), False)"
proof -
  have s: "seeded demo_sampler"
    by (rule demo_sampler_seeded)
  have a: "df_to_analyze demo_sampler [2, 0] demo_frame (Some 2)
     = Inr ([(0, [Val ''Ann'', Val ''ann@x.org'', Missing]),
             (1, [Val ''Bob'', Val ''bob@x.org'', Val ''none''])], True)"
    by code_simp
  have c: "df_to_analyze demo_sampler [2, 0] demo_frame (Some 3)
     = Inr (enumerate 0 (df_rows demo_frame), False)"
    by code_simp
  have "seeded demo_sampler \<longrightarrow>
        df_to_analyze demo_sampler [2, 0] demo_frame (Some 2)
          = df_to_analyze demo_sampler [1, 2] demo_frame (Some 2)
        \<and> analyze_dataframe demo_analyzer demo_sampler [2, 0] demo_frame (Some 2) 0.35 None
            = analyze_dataframe demo_analyzer demo_sampler [1, 2] demo_frame (Some 2) 0.35 None"
    using sampling_fixed_seed [of demo_sampler "[2, 0]" demo_frame "Some 2" "[]" "[1, 2]"
        demo_analyzer "0.35" None]
    by (rule conjunct2[THEN conjunct2])
  then have "df_to_analyze demo_sampler [2, 0] demo_frame (Some 2)
          = df_to_analyze demo_sampler [1, 2] demo_frame (Some 2)"
    using s by blast
  with s a c show ?thesis
    by (intro conjI)
qed

section \<open>The shared engines\<close>

lemma load_engines_failure:
  "construction env = Inl e \<Longrightarrow> fst (load_engines env obj) = Inl e"
  by (auto simp: load_engines_def construction_def Let_def split: sum.splits)

lemma load_engines_success:
  "construction env = Inr (an, no) \<Longrightarrow>
   load_engines env obj
     = (Inr (), obj\<lparr>inst_analyzer_engine := Some an, inst_anonymizer_engine := Some no\<rparr>)"
  by (auto simp: load_engines_def construction_def Let_def split: sum.splits)

lemma singleton_new_ok:
  "heap_ok p \<Longrightarrow> singleton_new p = (a, p1) \<Longrightarrow>
   cls_instance p1 = Some a \<and> a < length (objects p1)
   \<and> cls_initialized p1 = cls_initialized p \<and> singleton_instance p1 = singleton_instance p
   \<and> (cls_instance p = Some a \<longrightarrow> p1 = p)"
  by (auto simp: singleton_new_def heap_ok_def Let_def split: option.splits)

lemma singleton_init_failure:
  "\<not> cls_initialized p \<Longrightarrow> construction env = Inl e \<Longrightarrow>
   fst (singleton_init env a p) = Inl e
   \<and> \<not> cls_initialized (snd (singleton_init env a p))
   \<and> cls_instance (snd (singleton_init env a p)) = cls_instance p
   \<and> singleton_instance (snd (singleton_init env a p)) = singleton_instance p
   \<and> length (objects (snd (singleton_init env a p))) = length (objects p)"
proof -
  assume a: "\<not> cls_initialized p" "construction env = Inl e"
  obtain r loaded where l: "load_engines env ((objects p ! a)\<lparr>inst_analyzer_engine := None,
      inst_anonymizer_engine := None\<rparr>) = (r, loaded)"
    by (cases "load_engines env ((objects p ! a)\<lparr>inst_analyzer_engine := None,
      inst_anonymizer_engine := None\<rparr>)")
  with load_engines_failure[OF a(2)] have "r = Inl e"
    by (metis fst_conv)
  with a l show ?thesis
    by (simp add: singleton_init_def Let_def)
qed

lemma singleton_init_success:
  "\<not> cls_initialized p \<Longrightarrow> construction env = Inr (an, no) \<Longrightarrow> a < length (objects p) \<Longrightarrow>
   fst (singleton_init env a p) = Inr ()
   \<and> cls_initialized (snd (singleton_init env a p))
   \<and> cls_instance (snd (singleton_init env a p)) = cls_instance p
   \<and> singleton_instance (snd (singleton_init env a p)) = singleton_instance p
   \<and> length (objects (snd (singleton_init env a p))) = length (objects p)
   \<and> inst_analyzer_engine (objects (snd (singleton_init env a p)) ! a) = Some an
   \<and> inst_anonymizer_engine (objects (snd (singleton_init env a p)) ! a) = Some no"
  by (simp add: singleton_init_def Let_def load_engines_success)

lemma construction_warm:
  "construction env = Inr (an, no) \<Longrightarrow> \<not> isl (an warm_up_text ''en'' None None)"
  by (auto simp: construction_def split: sum.splits)

text \<open>A first-time call of get_analyzer_singleton, by the outcome of the construction.\<close>

lemma get_analyzer_singleton_failure:
  assumes "heap_ok p" "\<not> cls_initialized p" "singleton_instance p = None"
    and "construction env = Inl e"
  shows "fst (get_analyzer_singleton env p) = Inl e"
    and "heap_ok (snd (get_analyzer_singleton env p))"
    and "\<not> cls_initialized (snd (get_analyzer_singleton env p))"
    and "singleton_instance (snd (get_analyzer_singleton env p)) = None"
proof -
  obtain a p1 where n: "singleton_new p = (a, p1)"
    by (cases "singleton_new p")
  from singleton_new_ok[OF assms(1) n] assms(2,3)
  have p1: "cls_instance p1 = Some a" "a < length (objects p1)" "\<not> cls_initialized p1"
      "singleton_instance p1 = None"
    by simp_all
  note i = singleton_init_failure[OF p1(3) assms(4), of a]
  obtain r p2 where si: "singleton_init env a p1 = (r, p2)"
    by (cases "singleton_init env a p1")
  with i have r: "r = Inl e"
    by simp
  have g: "get_analyzer_singleton env p = (Inl e, snd (singleton_init env a p1))"
    using n si r assms(3)
    by (simp add: get_analyzer_singleton_def analyzer_singleton_def)
  show "fst (get_analyzer_singleton env p) = Inl e"
    using g by simp
  show "heap_ok (snd (get_analyzer_singleton env p))"
    using g i p1 by (simp add: heap_ok_def)
  show "\<not> cls_initialized (snd (get_analyzer_singleton env p))"
    using g i by simp
  show "singleton_instance (snd (get_analyzer_singleton env p)) = None"
    using g i p1 by simp
qed

lemma get_analyzer_singleton_success:
  assumes "heap_ok p" "\<not> cls_initialized p" "singleton_instance p = None"
    and "construction env = Inr (an, no)"
  shows "\<exists>a. fst (get_analyzer_singleton env p) = Inr a
     \<and> singleton_instance (snd (get_analyzer_singleton env p)) = Some a
     \<and> cls_instance (snd (get_analyzer_singleton env p)) = Some a
     \<and> cls_initialized (snd (get_analyzer_singleton env p))
     \<and> a < length (objects (snd (get_analyzer_singleton env p)))
     \<and> inst_analyzer_engine (objects (snd (get_analyzer_singleton env p)) ! a) = Some an
     \<and> inst_anonymizer_engine (objects (snd (get_analyzer_singleton env p)) ! a) = Some no"
proof -
  obtain a p1 where n: "singleton_new p = (a, p1)"
    by (cases "singleton_new p")
  from singleton_new_ok[OF assms(1) n] assms(2,3)
  have p1: "cls_instance p1 = Some a" "a < length (objects p1)" "\<not> cls_initialized p1"
      "singleton_instance p1 = None"
    by simp_all
  note i = singleton_init_success[OF p1(3) assms(4) p1(2)]
  obtain r p2 where si: "singleton_init env a p1 = (r, p2)"
    by (cases "singleton_init env a p1")
  with i have r: "r = Inr ()"
    by simp
  have g: "get_analyzer_singleton env p
      = (Inr a, (snd (singleton_init env a p1))\<lparr>singleton_instance := Some a\<rparr>)"
    using n si r assms(3)
    by (simp add: get_analyzer_singleton_def analyzer_singleton_def)
  show ?thesis
    using g i p1 by simp
qed

lemma get_analyzer_singleton_set:
  "singleton_instance p = Some a \<Longrightarrow> get_analyzer_singleton env p = (Inr a, p)"
  by (simp add: get_analyzer_singleton_def)

lemma settled_initial: "settled initial_process"
  by (simp add: settled_def initial_process_def heap_ok_def)

lemma settled_get_analyzer_singleton:
  assumes "settled p"
  shows "settled (snd (get_analyzer_singleton env p))"
proof (cases "singleton_instance p")
  case (Some a)
  with assms show ?thesis
    by (simp add: get_analyzer_singleton_set)
next
  case None
  with assms have h: "heap_ok p" "\<not> cls_initialized p"
    by (simp_all add: settled_def)
  show ?thesis
  proof (cases "construction env")
    case (Inl e)
    from get_analyzer_singleton_failure[OF h None Inl] show ?thesis
      by (simp add: settled_def)
  next
    case (Inr c)
    then obtain an no where c: "construction env = Inr (an, no)"
      by (cases c) auto
    from get_analyzer_singleton_success[OF h None c] construction_warm[OF c]
    show ?thesis
      by (auto simp: settled_def heap_ok_def warmed_up_def)
  qed
qed

lemma returned_object_warmed_up:
  assumes "settled p" "fst (get_analyzer_singleton env p) = Inr a"
  shows "warmed_up (objects (snd (get_analyzer_singleton env p)) ! a)"
proof (cases "singleton_instance p")
  case (Some b)
  with assms show ?thesis
    by (auto simp: get_analyzer_singleton_set settled_def)
next
  case None
  with assms have h: "heap_ok p" "\<not> cls_initialized p"
    by (simp_all add: settled_def)
  show ?thesis
  proof (cases "construction env")
    case (Inl e)
    from get_analyzer_singleton_failure(1)[OF h None Inl] assms(2) show ?thesis
      by simp
  next
    case (Inr c)
    then obtain an no where c: "construction env = Inr (an, no)"
      by (cases c) auto
    from get_analyzer_singleton_success[OF h None c] construction_warm[OF c] assms(2)
    show ?thesis
      by (auto simp: warmed_up_def)
  qed
qed

lemma new_optimized_analyzer_first:
  assumes "settled p" "singleton_instance p = None"
  shows "map_sum id oa_analyzer (fst (new_optimized_analyzer env p))
           = map_sum id fst (construction env)"
    and "snd (new_optimized_analyzer env p) = snd (get_analyzer_singleton env p)"
proof -
  from assms have h: "heap_ok p" "\<not> cls_initialized p"
    by (simp_all add: settled_def)
  obtain r p1 where g: "get_analyzer_singleton env p = (r, p1)"
    by (cases "get_analyzer_singleton env p")
  show "snd (new_optimized_analyzer env p) = snd (get_analyzer_singleton env p)"
    using g by (simp add: new_optimized_analyzer_def split: sum.splits)
  show "map_sum id oa_analyzer (fst (new_optimized_analyzer env p))
           = map_sum id fst (construction env)"
  proof (cases "construction env")
    case (Inl e)
    from get_analyzer_singleton_failure(1)[OF h assms(2) Inl] g have "r = Inl e"
      by simp
    with g Inl show ?thesis
      by (simp add: new_optimized_analyzer_def)
  next
    case (Inr c)
    then obtain an no where c: "construction env = Inr (an, no)"
      by (cases c) auto
    from get_analyzer_singleton_success[OF h assms(2) c] g obtain a where
      a: "r = Inr a" "inst_analyzer_engine (objects p1 ! a) = Some an"
         "inst_anonymizer_engine (objects p1 ! a) = Some no"
      by auto
    with g c show ?thesis
      by (simp add: new_optimized_analyzer_def analyzer_of_def anonymizer_of_def)
  qed
qed

lemma pdf_detect_first:
  assumes "settled p" "singleton_instance p = None"
  shows "fst (pdf_detect env p txt threshold entities) =
     (case construction env of
        Inl e \<Rightarrow> Inl e
      | Inr (an, no) \<Rightarrow> fst (pdf_analyze_text an txt ''en'' threshold entities))"
proof -
  obtain r p1 where n: "new_optimized_analyzer env p = (r, p1)"
    by (cases "new_optimized_analyzer env p")
  with new_optimized_analyzer_first(1)[OF assms, of env]
  have m: "map_sum id oa_analyzer r = map_sum id fst (construction env)"
    by simp
  show ?thesis
  proof (cases "construction env")
    case (Inl e)
    with m have "r = Inl e" by (cases r) auto
    with n Inl show ?thesis by (simp add: pdf_detect_def)
  next
    case (Inr c)
    with m obtain oa where "r = Inr oa" "oa_analyzer oa = fst c" by (cases r) auto
    with n Inr show ?thesis by (simp add: pdf_detect_def split_beta)
  qed
qed

lemma image_detect_first:
  assumes "settled p" "singleton_instance p = None"
  shows "fst (image_detect env p txt threshold entities) =
     (case construction env of
        Inl e \<Rightarrow> Inl e
      | Inr (an, no) \<Rightarrow> fst (image_analyze_text an txt ''en'' threshold entities))"
proof -
  obtain r p1 where n: "new_optimized_analyzer env p = (r, p1)"
    by (cases "new_optimized_analyzer env p")
  with new_optimized_analyzer_first(1)[OF assms, of env]
  have m: "map_sum id oa_analyzer r = map_sum id fst (construction env)"
    by simp
  show ?thesis
  proof (cases "construction env")
    case (Inl e)
    with m have "r = Inl e" by (cases r) auto
    with n Inl show ?thesis by (simp add: image_detect_def)
  next
    case (Inr c)
    with m obtain oa where "r = Inr oa" "oa_analyzer oa = fst c" by (cases r) auto
    with n Inr show ?thesis by (simp add: image_detect_def split_beta)
  qed
qed

lemma new_optimized_analyzer_state:
  "snd (new_optimized_analyzer env p) = snd (get_analyzer_singleton env p)"
  by (cases "get_analyzer_singleton env p")
     (simp add: new_optimized_analyzer_def split: sum.splits)

lemma detect_state:
  "snd (pdf_detect env p txt threshold entities) = snd (get_analyzer_singleton env p)"
  "snd (image_detect env p txt threshold entities) = snd (get_analyzer_singleton env p)"
  using new_optimized_analyzer_state[of env p]
  by (cases "new_optimized_analyzer env p"; simp add: pdf_detect_def image_detect_def split: sum.splits)+

text \<open>Once the module variable is set, a detection runs on the warmed-up engine it names.\<close>

lemma detect_ready:
  assumes "settled p" "singleton_instance p = Some a"
  shows "\<exists>an. inst_analyzer_engine (objects p ! a) = Some an \<and> warmed_up (objects p ! a)
     \<and> fst (pdf_detect env p txt threshold entities)
         = fst (pdf_analyze_text an txt ''en'' threshold entities)
     \<and> fst (image_detect env p txt threshold entities)
         = fst (image_analyze_text an txt ''en'' threshold entities)"
proof -
  from assms have w: "warmed_up (objects p ! a)"
    by (simp add: settled_def)
  then obtain an no where e: "inst_analyzer_engine (objects p ! a) = Some an"
      "inst_anonymizer_engine (objects p ! a) = Some no"
    by (auto simp: warmed_up_def split: option.splits)
  have "new_optimized_analyzer env p
      = (Inr \<lparr>oa_singleton = a, oa_analyzer = an, oa_anonymizer = no\<rparr>, p)"
    using assms(2) e
    by (simp add: new_optimized_analyzer_def get_analyzer_singleton_set analyzer_of_def
        anonymizer_of_def)
  then show ?thesis
    using e w by (simp add: pdf_detect_def image_detect_def)
qed

text \<open>
  C3 (as amended). When the warm-up call raises during the construction of the shared
  engines, \<open>get_analyzer_singleton\<close> raises the same exception and leaves the module
  variable unset and the class not marked initialized. A detection made afterwards
  through a new analyzer runs the construction again: it raises the exception of that
  construction, or returns what the newly warmed-up engine finds. In every state reached,
  an object returned by \<open>get_analyzer_singleton\<close> is warmed up, and a detection made
  once the module variable is set runs on that warmed-up engine.
\<close>

theorem warm_up_failure_is_propagated:
  assumes "settled p" and "singleton_instance p = None"
    and "new_analyzer_engine env = Inr an" and "new_anonymizer_engine env = Inr no"
    and "an warm_up_text ''en'' None None = Inl e"
  shows "fst (get_analyzer_singleton env p) = Inl e
     \<and> settled (snd (get_analyzer_singleton env p))
     \<and> singleton_instance (snd (get_analyzer_singleton env p)) = None
     \<and> fst (pdf_detect env' (snd (get_analyzer_singleton env p)) txt threshold entities)
         = (case construction env' of
              Inl e' \<Rightarrow> Inl e'
            | Inr (an', no') \<Rightarrow> fst (pdf_analyze_text an' txt ''en'' threshold entities))
     \<and> fst (image_detect env' (snd (get_analyzer_singleton env p)) txt threshold entities)
         = (case construction env' of
              Inl e' \<Rightarrow> Inl e'
            | Inr (an', no') \<Rightarrow> fst (image_analyze_text an' txt ''en'' threshold entities))
     \<and> (\<forall>q envq. settled q \<longrightarrow>
           settled (snd (get_analyzer_singleton envq q))
           \<and> settled (snd (pdf_detect envq q txt threshold entities))
           \<and> settled (snd (image_detect envq q txt threshold entities))
           \<and> (\<forall>a. fst (get_analyzer_singleton envq q) = Inr a \<longrightarrow>
                 warmed_up (objects (snd (get_analyzer_singleton envq q)) ! a))
           \<and> (\<forall>a. singleton_instance q = Some a \<longrightarrow>
                 (\<exists>an'. inst_analyzer_engine (objects q ! a) = Some an'
                    \<and> warmed_up (objects q ! a)
                    \<and> fst (pdf_detect envq q txt threshold entities)
                        = fst (pdf_analyze_text an' txt ''en'' threshold entities)
                    \<and> fst (image_detect envq q txt threshold entities)
                        = fst (image_analyze_text an' txt ''en'' threshold entities))))"
proof -
  let ?p' = "snd (get_analyzer_singleton env p)"
  from assms(1,2) have h: "heap_ok p" "\<not> cls_initialized p"
    by (simp_all add: settled_def)
  have c: "construction env = Inl e"
    using assms(3,4,5) by (simp add: construction_def)
  have 1: "fst (get_analyzer_singleton env p) = Inl e"
    using h assms(2) c by (rule get_analyzer_singleton_failure(1))
  have 2: "settled ?p'"
    using assms(1) by (rule settled_get_analyzer_singleton)
  have 3: "singleton_instance ?p' = None"
    using h assms(2) c by (rule get_analyzer_singleton_failure(4))
  have 4: "fst (pdf_detect env' ?p' txt threshold entities)
         = (case construction env' of
              Inl e' \<Rightarrow> Inl e'
            | Inr (an', no') \<Rightarrow> fst (pdf_analyze_text an' txt ''en'' threshold entities))"
    using 2 3 by (rule pdf_detect_first)
  have 5: "fst (image_detect env' ?p' txt threshold entities)
         = (case construction env' of
              Inl e' \<Rightarrow> Inl e'
            | Inr (an', no') \<Rightarrow> fst (image_analyze_text an' txt ''en'' threshold entities))"
    using 2 3 by (rule image_detect_first)
  have 6: "settled (snd (get_analyzer_singleton envq q))
           \<and> settled (snd (pdf_detect envq q txt threshold entities))
           \<and> settled (snd (image_detect envq q txt threshold entities))
           \<and> (\<forall>a. fst (get_analyzer_singleton envq q) = Inr a \<longrightarrow>
                 warmed_up (objects (snd (get_analyzer_singleton envq q)) ! a))
           \<and> (\<forall>a. singleton_instance q = Some a \<longrightarrow>
                 (\<exists>an'. inst_analyzer_engine (objects q ! a) = Some an'
                    \<and> warmed_up (objects q ! a)
                    \<and> fst (pdf_detect envq q txt threshold entities)
                        = fst (pdf_analyze_text an' txt ''en'' threshold entities)
                    \<and> fst (image_detect envq q txt threshold entities)
                        = fst (image_analyze_text an' txt ''en'' threshold entities)))"
    if q: "settled q" for q envq
  proof (intro conjI allI impI)
    show s: "settled (snd (get_analyzer_singleton envq q))"
      using q by (rule settled_get_analyzer_singleton)
    from s show "settled (snd (pdf_detect envq q txt threshold entities))"
      by (simp add: detect_state)
    from s show "settled (snd (image_detect envq q txt threshold entities))"
      by (simp add: detect_state)
  next
    fix a assume "fst (get_analyzer_singleton envq q) = Inr a"
    with q show "warmed_up (objects (snd (get_analyzer_singleton envq q)) ! a)"
      by (rule returned_object_warmed_up)
  next
    fix a assume "singleton_instance q = Some a"
    with q show "\<exists>an'. inst_analyzer_engine (objects q ! a) = Some an'
                    \<and> warmed_up (objects q ! a)
                    \<and> fst (pdf_detect envq q txt threshold entities)
                        = fst (pdf_analyze_text an' txt ''en'' threshold entities)
                    \<and> fst (image_detect envq q txt threshold entities)
                        = fst (image_analyze_text an' txt ''en'' threshold entities)"
      by (rule detect_ready)
  qed
  from 1 2 3 4 5 6 show ?thesis
    by blast
qed

theorem warm_up_failure_is_propagated_witness:
  "settled initial_process \<and> singleton_instance initial_process = None
   \<and> new_analyzer_engine failing_environment = Inr failing_analyzer
   \<and> new_anonymizer_engine failing_environment = Inr demo_anonymizer
   \<and> failing_analyzer warm_up_text ''en'' None None = Inl (EngineFailure ''model not loaded'')
   \<and> fst (get_analyzer_singleton failing_environment initial_process)
       = Inl (EngineFailure ''model not loaded'')
   \<and> singleton_instance (snd (get_analyzer_singleton failing_environment initial_process))
       = None"
proof -
  have a: "settled initial_process"
    by (rule settled_initial)
  have b: "singleton_instance initial_process = None"
    by (simp add: initial_process_def)
  have c: "new_analyzer_engine failing_environment = Inr failing_analyzer"
    and d: "new_anonymizer_engine failing_environment = Inr demo_anonymizer"
    by (simp_all add: failing_environment_def)
  have e: "failing_analyzer warm_up_text ''en'' None None = Inl (EngineFailure ''model not loaded'')"
    by (simp add: failing_analyzer_def)
  note t = warm_up_failure_is_propagated [OF a b c d e, of working_environment "[]" 0 None]
  from t have 1: "fst (get_analyzer_singleton failing_environment initial_process)
       = Inl (EngineFailure ''model not loaded'')"
    by (rule conjunct1)
  from t have 3: "singleton_instance (snd (get_analyzer_singleton failing_environment
      initial_process)) = None"
    by (rule conjunct2[THEN conjunct2, THEN conjunct1])
  from a b c d e 1 3 show ?thesis
    by (intro conjI)
qed

text \<open>
  C3 as the specification states it fails: after a failed warm-up, a detection made in
  an environment where the engines load returns its findings, and one made where the
  warm-up fails again raises the engine's exception, not the error for an engine that is
  not initialized. The object left by the failed construction holds its analyzer engine,
  so that the guard of the \<open>analyzer\<close> property would not raise on it either.
\<close>

theorem detect_after_warm_up_failure:
  "fst (get_analyzer_singleton failing_environment initial_process)
     = Inl (EngineFailure ''model not loaded'')
   \<and> fst (pdf_detect working_environment
           (snd (get_analyzer_singleton failing_environment initial_process))
           ''a@b'' 0.35 None)
     = Inr [\<lparr>f_entity_type = ''EMAIL_ADDRESS'', f_text = ''a@b'', f_start = 0, f_end = 3,
             f_score = 1\<rparr>]
   \<and> fst (pdf_detect failing_environment
           (snd (get_analyzer_singleton failing_environment initial_process))
           ''a@b'' 0.35 None)
     = Inl (EngineFailure ''model not loaded'')
   \<and> map_sum id (\<lambda>an. ())
       (analyzer_of (snd (get_analyzer_singleton failing_environment initial_process)) 0)
     = Inr ()"
  by code_simp

section \<open>One shared instance\<close>

lemma singleton_invariant_initial: "singleton_invariant initial_system"
  by (simp add: singleton_invariant_def shared_ok_def call_ok_def initial_system_def)

lemma step_preserves:
  assumes g: "shared_ok s" and c: "\<And>v. call_ok s v" and st: "step s s'"
  shows "shared_ok s' \<and> call_ok s' u"
  using st
proof (cases rule: step.cases)
  case (start_unset t)
  with g c[of t] c[of u] show ?thesis
    by (auto simp: shared_ok_def call_ok_def)
next
  case (start_set t a)
  with g c[of t] c[of u] show ?thesis
    by (auto simp: shared_ok_def call_ok_def)
next
  case (new_check_unset t)
  with g c[of t] c[of u] show ?thesis
    by (auto simp: shared_ok_def call_ok_def)
next
  case (new_check_set t a)
  with g c[of t] c[of u] show ?thesis
    by (auto simp: shared_ok_def call_ok_def)
next
  case (new_acquire t)
  with g c[of t] c[of u] show ?thesis
    by (auto simp: shared_ok_def call_ok_def)
next
  case (new_recheck_unset t)
  with g c[of t] c[of u] show ?thesis
    by (auto simp: shared_ok_def call_ok_def)
next
  case (new_recheck_set t a)
  with g c[of t] c[of u] show ?thesis
    by (auto simp: shared_ok_def call_ok_def)
next
  case (new_create t)
  with g c[of t] c[of u] show ?thesis
    by (auto simp: shared_ok_def call_ok_def)
next
  case (new_release t)
  with g c[of t] c[of u] show ?thesis
    by (auto simp: shared_ok_def call_ok_def)
next
  case (new_return_object t a)
  with g c[of t] c[of u] show ?thesis
    by (auto simp: shared_ok_def call_ok_def)
next
  case (new_return_none t)
  with g c[of t] c[of u] show ?thesis
    by (auto simp: shared_ok_def call_ok_def)
next
  case (init_check_unset t)
  with g c[of t] c[of u] show ?thesis
    by (auto simp: shared_ok_def call_ok_def)
next
  case (init_check_set t)
  with g c[of t] c[of u] show ?thesis
    by (auto simp: shared_ok_def call_ok_def)
next
  case (init_acquire t)
  with g c[of t] c[of u] show ?thesis
    by (auto simp: shared_ok_def call_ok_def)
next
  case (init_recheck_unset t)
  with g c[of t] c[of u] show ?thesis
    by (auto simp: shared_ok_def call_ok_def)
next
  case (init_recheck_set t)
  with g c[of t] c[of u] show ?thesis
    by (auto simp: shared_ok_def call_ok_def)
next
  case (init_load_returns t)
  with g c[of t] c[of u] show ?thesis
    by (auto simp: shared_ok_def call_ok_def)
next
  case (init_load_raises t)
  with g c[of t] c[of u] show ?thesis
    by (auto simp: shared_ok_def call_ok_def)
next
  case (init_mark t)
  with g c[of t] c[of u] show ?thesis
    by (auto simp: shared_ok_def call_ok_def)
next
  case (init_release t)
  with g c[of t] c[of u] show ?thesis
    by (auto simp: shared_ok_def call_ok_def)
next
  case (assign t)
  with g c[of t] c[of u] show ?thesis
    by (auto simp: shared_ok_def call_ok_def)
next
  case (final_return t)
  with g c[of t] c[of u] show ?thesis
    by (auto simp: shared_ok_def call_ok_def)
qed

lemma singleton_invariant_step:
  "singleton_invariant s \<Longrightarrow> step s s' \<Longrightarrow> singleton_invariant s'"
  using step_preserves[of s s'] by (simp add: singleton_invariant_def)

lemma reachable_invariant: "reachable s \<Longrightarrow> singleton_invariant s"
  by (induction rule: reachable.induct)
     (auto intro: singleton_invariant_initial singleton_invariant_step)

lemma step_to: "step s s' \<Longrightarrow> s' = s'' \<Longrightarrow> step s s''"
  by simp

lemma reachable_two_calls:
  "reachable (two_calls (Returned (Some 0)) (Returned (Some 0)) (Some 0) (Some 0) True (Some 0)
     None 1)"
proof -
  have r0: "reachable (two_calls Start Start None None False None None 0)"
  proof -
    have "two_calls Start Start None None False None None 0 = initial_system"
      by (simp add: two_calls_def initial_system_def fun_eq_iff)
    then show ?thesis
      by (simp add: reachable_initial)
  qed
  have "step (two_calls Start Start None None False None None 0)
          (two_calls New_check Start None None False None None 0)"
    by (rule step_to[OF start_unset
          [of "two_calls Start Start None None False None None 0" 0]])
       (simp_all add: two_calls_def fun_eq_iff)
  with r0 have r1: "reachable (two_calls New_check Start None None False None None 0)"
    by (rule reachable_step)
  have "step (two_calls New_check Start None None False None None 0)
          (two_calls New_acquire Start None None False None None 0)"
    by (rule step_to[OF new_check_unset
          [of "two_calls New_check Start None None False None None 0" 0]])
       (simp_all add: two_calls_def fun_eq_iff)
  with r1 have r2: "reachable (two_calls New_acquire Start None None False None None 0)"
    by (rule reachable_step)
  have "step (two_calls New_acquire Start None None False None None 0)
          (two_calls New_recheck Start None None False None (Some 0) 0)"
    by (rule step_to[OF new_acquire
          [of "two_calls New_acquire Start None None False None None 0" 0]])
       (simp_all add: two_calls_def fun_eq_iff)
  with r2 have r3: "reachable (two_calls New_recheck Start None None False None (Some 0) 0)"
    by (rule reachable_step)
  have "step (two_calls New_recheck Start None None False None (Some 0) 0)
          (two_calls New_create Start None None False None (Some 0) 0)"
    by (rule step_to[OF new_recheck_unset
          [of "two_calls New_recheck Start None None False None (Some 0) 0" 0]])
       (simp_all add: two_calls_def fun_eq_iff)
  with r3 have r4: "reachable (two_calls New_create Start None None False None (Some 0) 0)"
    by (rule reachable_step)
  have "step (two_calls New_create Start None None False None (Some 0) 0)
          (two_calls New_release Start None (Some 0) False None (Some 0) 1)"
    by (rule step_to[OF new_create
          [of "two_calls New_create Start None None False None (Some 0) 0" 0]])
       (simp_all add: two_calls_def fun_eq_iff)
  with r4 have r5: "reachable (two_calls New_release Start None (Some 0) False None (Some 0) 1)"
    by (rule reachable_step)
  have "step (two_calls New_release Start None (Some 0) False None (Some 0) 1)
          (two_calls New_return Start None (Some 0) False None None 1)"
    by (rule step_to[OF new_release
          [of "two_calls New_release Start None (Some 0) False None (Some 0) 1" 0]])
       (simp_all add: two_calls_def fun_eq_iff)
  with r5 have r6: "reachable (two_calls New_return Start None (Some 0) False None None 1)"
    by (rule reachable_step)
  have "step (two_calls New_return Start None (Some 0) False None None 1)
          (two_calls Init_check Start (Some 0) (Some 0) False None None 1)"
    by (rule step_to[OF new_return_object
          [of "two_calls New_return Start None (Some 0) False None None 1" 0 "0"]])
       (simp_all add: two_calls_def fun_eq_iff)
  with r6 have r7: "reachable (two_calls Init_check Start (Some 0) (Some 0) False None None 1)"
    by (rule reachable_step)
  have "step (two_calls Init_check Start (Some 0) (Some 0) False None None 1)
          (two_calls Init_acquire Start (Some 0) (Some 0) False None None 1)"
    by (rule step_to[OF init_check_unset
          [of "two_calls Init_check Start (Some 0) (Some 0) False None None 1" 0]])
       (simp_all add: two_calls_def fun_eq_iff)
  with r7 have r8: "reachable (two_calls Init_acquire Start (Some 0) (Some 0) False None None 1)"
    by (rule reachable_step)
  have "step (two_calls Init_acquire Start (Some 0) (Some 0) False None None 1)
          (two_calls Init_recheck Start (Some 0) (Some 0) False None (Some 0) 1)"
    by (rule step_to[OF init_acquire
          [of "two_calls Init_acquire Start (Some 0) (Some 0) False None None 1" 0]])
       (simp_all add: two_calls_def fun_eq_iff)
  with r8 have r9: "reachable (two_calls Init_recheck Start (Some 0) (Some 0) False None (Some 0) 1)"
    by (rule reachable_step)
  have "step (two_calls Init_recheck Start (Some 0) (Some 0) False None (Some 0) 1)
          (two_calls Init_load Start (Some 0) (Some 0) False None (Some 0) 1)"
    by (rule step_to[OF init_recheck_unset
          [of "two_calls Init_recheck Start (Some 0) (Some 0) False None (Some 0) 1" 0]])
       (simp_all add: two_calls_def fun_eq_iff)
  with r9 have r10: "reachable (two_calls Init_load Start (Some 0) (Some 0) False None (Some 0) 1)"
    by (rule reachable_step)
  have "step (two_calls Init_load Start (Some 0) (Some 0) False None (Some 0) 1)
          (two_calls Init_mark Start (Some 0) (Some 0) False None (Some 0) 1)"
    by (rule step_to[OF init_load_returns
          [of "two_calls Init_load Start (Some 0) (Some 0) False None (Some 0) 1" 0]])
       (simp_all add: two_calls_def fun_eq_iff)
  with r10 have r11: "reachable (two_calls Init_mark Start (Some 0) (Some 0) False None (Some 0) 1)"
    by (rule reachable_step)
  have "step (two_calls Init_mark Start (Some 0) (Some 0) False None (Some 0) 1)
          (two_calls Init_release Start (Some 0) (Some 0) True None (Some 0) 1)"
    by (rule step_to[OF init_mark
          [of "two_calls Init_mark Start (Some 0) (Some 0) False None (Some 0) 1" 0]])
       (simp_all add: two_calls_def fun_eq_iff)
  with r11 have r12: "reachable (two_calls Init_release Start (Some 0) (Some 0) True None (Some 0) 1)"
    by (rule reachable_step)
  have "step (two_calls Init_release Start (Some 0) (Some 0) True None (Some 0) 1)
          (two_calls Assign Start (Some 0) (Some 0) True None None 1)"
    by (rule step_to[OF init_release
          [of "two_calls Init_release Start (Some 0) (Some 0) True None (Some 0) 1" 0]])
       (simp_all add: two_calls_def fun_eq_iff)
  with r12 have r13: "reachable (two_calls Assign Start (Some 0) (Some 0) True None None 1)"
    by (rule reachable_step)
  have "step (two_calls Assign Start (Some 0) (Some 0) True None None 1)
          (two_calls Final_return Start (Some 0) (Some 0) True (Some 0) None 1)"
    by (rule step_to[OF assign
          [of "two_calls Assign Start (Some 0) (Some 0) True None None 1" 0]])
       (simp_all add: two_calls_def fun_eq_iff)
  with r13 have r14: "reachable (two_calls Final_return Start (Some 0) (Some 0) True (Some 0) None 1)"
    by (rule reachable_step)
  have "step (two_calls Final_return Start (Some 0) (Some 0) True (Some 0) None 1)
          (two_calls (Returned (Some 0)) Start (Some 0) (Some 0) True (Some 0) None 1)"
    by (rule step_to[OF final_return
          [of "two_calls Final_return Start (Some 0) (Some 0) True (Some 0) None 1" 0]])
       (simp_all add: two_calls_def fun_eq_iff)
  with r14 have r15: "reachable (two_calls (Returned (Some 0)) Start (Some 0) (Some 0) True (Some 0) None 1)"
    by (rule reachable_step)
  have "step (two_calls (Returned (Some 0)) Start (Some 0) (Some 0) True (Some 0) None 1)
          (two_calls (Returned (Some 0)) Final_return (Some 0) (Some 0) True (Some 0) None 1)"
    by (rule step_to[OF start_set
          [of "two_calls (Returned (Some 0)) Start (Some 0) (Some 0) True (Some 0) None 1" 1 "0"]])
       (simp_all add: two_calls_def fun_eq_iff)
  with r15 have r16: "reachable (two_calls (Returned (Some 0)) Final_return (Some 0) (Some 0) True (Some 0) None 1)"
    by (rule reachable_step)
  have "step (two_calls (Returned (Some 0)) Final_return (Some 0) (Some 0) True (Some 0) None 1)
          (two_calls (Returned (Some 0)) (Returned (Some 0)) (Some 0) (Some 0) True (Some 0) None 1)"
    by (rule step_to[OF final_return
          [of "two_calls (Returned (Some 0)) Final_return (Some 0) (Some 0) True (Some 0) None 1" 1]])
       (simp_all add: two_calls_def fun_eq_iff)
  with r16 have r17: "reachable (two_calls (Returned (Some 0)) (Returned (Some 0)) (Some 0) (Some 0) True (Some 0) None 1)"
    by (rule reachable_step)
  from r17 show ?thesis .
qed

text \<open>
  C7. In every state that calls of \<open>get_analyzer_singleton\<close> can reach, however their
  steps interleave and whether the loading of the engines succeeds or fails, at most one
  \<open>AnalyzerSingleton\<close> object has been created, every call that has returned has
  returned that object, and so any two calls that have returned, the first-time calls
  that ran at the same time and all the later ones, have returned the same object.
\<close>

theorem one_shared_instance:
  "reachable s \<Longrightarrow>
   created s \<le> 1
   \<and> (\<forall>t a. pc_of s t = Returned a \<longrightarrow>
         a = Some 0 \<and> var_instance s = Some 0 \<and> created s = 1)
   \<and> (\<forall>t u a b. pc_of s t = Returned a \<and> pc_of s u = Returned b \<longrightarrow> a = b)"
proof -
  assume "reachable s"
  then have i: "singleton_invariant s"
    by (rule reachable_invariant)
  then have g: "var_instance s = None \<and> created s = 0 \<or> var_instance s = Some 0 \<and> created s = 1"
    by (simp add: singleton_invariant_def shared_ok_def)
  have r: "a = var_instance s \<and> a \<noteq> None" if "pc_of s t = Returned a" for t a
    using i that by (simp add: singleton_invariant_def call_ok_def)
  have 1: "created s \<le> 1"
    using g by auto
  have 2: "a = Some 0 \<and> var_instance s = Some 0 \<and> created s = 1"
    if "pc_of s t = Returned a" for t a
    using r[OF that] g by auto
  have 3: "a = b" if "pc_of s t = Returned a \<and> pc_of s u = Returned b" for t u a b
    using that r[of t a] r[of u b] by simp
  from 1 2 3 show ?thesis
    by blast
qed

theorem one_shared_instance_witness:
  "reachable (two_calls (Returned (Some 0)) (Returned (Some 0)) (Some 0) (Some 0) True (Some 0)
     None 1)
   \<and> pc_of (two_calls (Returned (Some 0)) (Returned (Some 0)) (Some 0) (Some 0) True (Some 0)
       None 1) 0 = Returned (Some 0)
   \<and> pc_of (two_calls (Returned (Some 0)) (Returned (Some 0)) (Some 0) (Some 0) True (Some 0)
       None 1) 1 = Returned (Some 0)
   \<and> created (two_calls (Returned (Some 0)) (Returned (Some 0)) (Some 0) (Some 0) True (Some 0)
       None 1) \<le> 1"
proof -
  let ?s = "two_calls (Returned (Some 0)) (Returned (Some 0)) (Some 0) (Some 0) True (Some 0)
     None 1"
  have r: "reachable ?s"
    by (rule reachable_two_calls)
  have p: "pc_of ?s 0 = Returned (Some 0)" "pc_of ?s 1 = Returned (Some 0)"
    by (simp_all add: two_calls_def)
  have "created ?s \<le> 1"
    using one_shared_instance [OF r] by (rule conjunct1)
  with r p show ?thesis
    by (intro conjI)
qed

end
